theory Spec2Isabelle
  imports Complex_Main "HOL-Library.Word" "HOL-Library.Char_ord" "HOL-Library.List_Lexorder"
begin

section \<open>Data model (types.ts)\<close>

text \<open>
  The two interfaces of the type declarations. A JavaScript number is modelled as the
  \<^typ>\<open>real\<close> it denotes (a finite double; NaN and the infinities are left out),
  optional fields as \<^typ>\<open>'a option\<close>.
  Field names that would clash with HOL constants or with one another carry a short
  prefix: \<open>id\<close> is \<open>variantId\<close>, \<open>text\<close> is \<open>overlayText\<close>, \<open>x\<close> and \<open>y\<close> are
  \<open>posX\<close> and \<open>posY\<close>.
\<close>

datatype export_format = ImageJpeg | ImagePng

datatype variant_status = Pending | Processing | Completed | Failed

record OverlayConfig =
  overlayText :: string
  fontFamily :: "string option"
  fontSize :: real
  color :: "string option"
  posX :: real
  posY :: real
  rotation :: real
  batchNumber :: "string option"
  showDate :: "bool option"
  textureIntensity :: "real option"
  exportFormat :: "export_format option"
  upscaleFactor :: "real option"
  opacity :: "real option"

record ImageVariant =
  variantId :: string
  dataUrl :: string
  blobUrl :: "string option"
  config :: OverlayConfig
  detectedPrice :: "real option"
  detectedShipping :: "real option"
  status :: variant_status
  errorMessage :: "string option"
  timestamp :: "int option"
  tags :: "string list option"

section \<open>Variant store (imageService.ts, IndexedDB object store keyed by \<open>id\<close>)\<close>

text \<open>
  The object store \<open>ImageVariants\<close> is created with \<open>keyPath: 'id'\<close>: it holds at most
  one record per key and hands its records out in key order. It is modelled as an
  association list kept in ascending key order; \<open>store.put\<close> is an ordered upsert.
\<close>

type_synonym object_store = "(string \<times> ImageVariant) list"

fun store_put :: "ImageVariant \<Rightarrow> object_store \<Rightarrow> object_store" where
  "store_put v [] = [(variantId v, v)]"
| "store_put v ((k, u) # rest) =
     (if variantId v = k then (k, v) # rest
      else if variantId v < k then (variantId v, v) # (k, u) # rest
      else (k, u) # store_put v rest)"

definition store_getAll :: "object_store \<Rightarrow> ImageVariant list" where
  "store_getAll s = map snd s"

definition store_clear :: "object_store \<Rightarrow> object_store" where
  "store_clear s = []"

text \<open>
  Everything the browser decides is an input of the model: the values returned by
  \<open>Math.random()\<close> and \<open>Date.now()\<close> (indexed by the number of earlier calls), whether
  an IndexedDB operation (open plus transaction) completes, whether a 2d context can be
  had, what \<open>drawImage\<close> and the colour filter leave on the canvas, whether
  \<open>getImageData\<close> can hand out the pixels of a canvas of a given non-zero size (the
  canvas is origin-clean and the array can be allocated), the encoder behind
  \<open>canvas.toDataURL\<close>, the image decoder behind \<open>loadImage\<close>, the rendering of a
  number as a string, and the two tables of the constants module, which is not part of
  the sources at hand. The world holds what the code changes outside its own variables:
  the records of the object store, how many database operations, random draws and clock
  readings were made, and the downloads triggered (content or URL, file name). A
  \<open>jitter\<close> holds the parameters of the geometric and chromatic steps of the pipeline,
  which the rendering depends on.
\<close>

type_synonym pixel = "8 word \<times> 8 word \<times> 8 word \<times> 8 word"

record HTMLImageElement =
  imgWidth :: nat
  imgHeight :: nat
  imgSrc :: string

record canvas =
  canvasWidth :: nat
  canvasHeight :: nat
  canvasData :: "pixel list"
  canvasText :: "OverlayConfig option"

record jitter =
  zoom :: real
  offsetX :: real
  offsetY :: real
  microRotation :: real
  hue :: real
  brightness :: real
  contrast :: real

record env =
  mathRandom :: "nat \<Rightarrow> real"
  dateNow :: "nat \<Rightarrow> int"
  idbCompletes :: "nat \<Rightarrow> bool"
  getContext2d :: bool
  rendered :: "HTMLImageElement \<Rightarrow> nat \<Rightarrow> nat \<Rightarrow> jitter option \<Rightarrow> pixel list"
  toDataURL :: "canvas \<Rightarrow> export_format \<Rightarrow> real \<Rightarrow> string"
  imageDataReadable :: "HTMLImageElement \<Rightarrow> nat \<Rightarrow> nat \<Rightarrow> bool"
  imageOf :: "string \<Rightarrow> HTMLImageElement option"
  showNumber :: "real \<Rightarrow> string"
  FONTS :: "string list"
  COLORS :: "string list"

record world =
  records :: object_store
  idbOps :: nat
  draws :: nat
  ticks :: nat
  downloads :: "(string \<times> string) list"

datatype error =
  NoCanvasContext | InvalidStateError | IndexSizeError | ImageDataUnavailable
  | StoreRejected | ImageLoadFailed

text \<open>
  \<open>saveVariantToDB\<close>, \<open>getAllVariantsFromDB\<close> and \<open>clearAllVariantsFromDB\<close>: each opens
  the database, runs one transaction and resolves, or rejects and leaves the records
  as they were.
\<close>

definition saveVariantToDB :: "env \<Rightarrow> ImageVariant \<Rightarrow> world \<Rightarrow> (error + bool) \<times> world" where
  "saveVariantToDB e v w =
     (if idbCompletes e (idbOps w)
      then (Inr True, w\<lparr>records := store_put v (records w), idbOps := Suc (idbOps w)\<rparr>)
      else (Inl StoreRejected, w\<lparr>idbOps := Suc (idbOps w)\<rparr>))"

definition getAllVariantsFromDB :: "env \<Rightarrow> world \<Rightarrow> (error + ImageVariant list) \<times> world" where
  "getAllVariantsFromDB e w =
     (if idbCompletes e (idbOps w)
      then (Inr (store_getAll (records w)), w\<lparr>idbOps := Suc (idbOps w)\<rparr>)
      else (Inl StoreRejected, w\<lparr>idbOps := Suc (idbOps w)\<rparr>))"

definition clearAllVariantsFromDB :: "env \<Rightarrow> world \<Rightarrow> (error + bool) \<times> world" where
  "clearAllVariantsFromDB e w =
     (if idbCompletes e (idbOps w)
      then (Inr True, w\<lparr>records := store_clear (records w), idbOps := Suc (idbOps w)\<rparr>)
      else (Inl StoreRejected, w\<lparr>idbOps := Suc (idbOps w)\<rparr>))"


text \<open>
  A sequence of store calls, run through the three operations above from any world.
\<close>

datatype store_call = PutCall ImageVariant | GetAllCall | ClearCall

fun run_calls :: "env \<Rightarrow> store_call list \<Rightarrow> world \<Rightarrow> world" where
  "run_calls e [] w = w"
| "run_calls e (PutCall v # cs) w = run_calls e cs (snd (saveVariantToDB e v w))"
| "run_calls e (GetAllCall # cs) w = run_calls e cs (snd (getAllVariantsFromDB e w))"
| "run_calls e (ClearCall # cs) w = run_calls e cs (snd (clearAllVariantsFromDB e w))"

text \<open>
  The specification's reading of the store, in its own words: an upsert-by-id map.
  \<open>last_writes e cs n m\<close> is the map from ids to variants after the calls \<open>cs\<close>, the
  first of them being the \<open>n\<close>-th operation on the database, starting from \<open>m\<close>: a
  completed put overwrites the entry of its id, a completed clear empties the map, a
  rejected call changes nothing.
\<close>

fun last_writes ::
  "env \<Rightarrow> store_call list \<Rightarrow> nat \<Rightarrow> (string \<rightharpoonup> ImageVariant) \<Rightarrow> (string \<rightharpoonup> ImageVariant)" where
  "last_writes e [] n m = m"
| "last_writes e (PutCall v # cs) n m =
     last_writes e cs (Suc n) (if idbCompletes e n then m(variantId v \<mapsto> v) else m)"
| "last_writes e (GetAllCall # cs) n m = last_writes e cs (Suc n) m"
| "last_writes e (ClearCall # cs) n m =
     last_writes e cs (Suc n) (if idbCompletes e n then Map.empty else m)"

definition emptyWorld :: world where
  "emptyWorld = \<lparr>records = [], idbOps = 0, draws = 0, ticks = 0, downloads = []\<rparr>"

text \<open>The invariant of the object store: ascending keys, each record under its own id.\<close>

definition store_ok :: "object_store \<Rightarrow> bool" where
  "store_ok s = (sorted_wrt (<) (map fst s) \<and> list_all (\<lambda>(k, v). k = variantId v) s)"

section \<open>Number conversions of the platform\<close>

text \<open>
  \<open>ImageData.data\<close> is a \<open>Uint8ClampedArray\<close>: a stored number is clamped to
  \<open>[0, 255]\<close> and rounded to the nearest integer, a tie going to the even one.
  \<open>canvas.width\<close> and \<open>canvas.height\<close> are \<open>unsigned long\<close> attributes that reflect
  content attributes: a stored number is truncated towards zero and taken modulo
  \<open>2 ^ 32\<close>, and a result above \<open>2 ^ 31 - 1\<close> is replaced by the attribute's default
  (300 for the width, 150 for the height).
\<close>

definition toUint8Clamped :: "real \<Rightarrow> 8 word" where
  "toUint8Clamped x =
     (if x \<le> 0 then 0
      else if 255 \<le> x then 255
      else if of_int \<lfloor>x\<rfloor> + 1 / 2 < x then word_of_int (\<lfloor>x\<rfloor> + 1)
      else if x < of_int \<lfloor>x\<rfloor> + 1 / 2 then word_of_int \<lfloor>x\<rfloor>
      else if even \<lfloor>x\<rfloor> then word_of_int \<lfloor>x\<rfloor>
      else word_of_int (\<lfloor>x\<rfloor> + 1))"

definition toUnsignedLong :: "real \<Rightarrow> nat" where
  "toUnsignedLong x = nat ((if 0 \<le> x then \<lfloor>x\<rfloor> else \<lceil>x\<rceil>) mod 2 ^ 32)"

definition canvasDimension :: "nat \<Rightarrow> real \<Rightarrow> nat" where
  "canvasDimension dflt x = (if toUnsignedLong x \<le> 2147483647 then toUnsignedLong x else dflt)"

definition mathRound :: "real \<Rightarrow> int" where
  "mathRound x = \<lfloor>x + 1 / 2\<rfloor>"

text \<open>
  Double arithmetic. Every arithmetic operation of JavaScript gives the double nearest
  to its exact result, a tie going to the one with an even significand (IEEE 754
  binary64, round to nearest even): the operation \<open>a * b\<close> of the code is
  \<open>round64 (a * b)\<close>, and a decimal literal \<open>0.05\<close> is \<open>round64 (5 / 100)\<close>. The
  doubles around \<open>x\<close> are the multiples of \<open>quantum64 x\<close>, which is \<open>2\<close> to the power
  \<open>e - 52\<close> where \<open>2 ^ e \<le> \<bar>x\<bar> < 2 ^ (e + 1)\<close>, the exponent \<open>e\<close> being kept within
  \<open>-1022\<close> (below it the doubles are subnormal, with quantum \<open>2 ^ -1074\<close>) and 1023
  (above it the code would have an infinity, which is left out here). The exponent
  is found by counting up from 0 for \<open>\<bar>x\<bar> \<ge> 1\<close> and down from 0 otherwise.

  The rounding is written out where a result decides what the pipeline stores: the
  size of the canvas and the noise added to the bytes. The numbers that are only
  handed on (the jitter, the overlay configuration and the quality, which go to the
  drawing and encoding operations of the platform, and the progress percentage) are
  the values of their expressions.
\<close>

definition roundTiesToEven :: "real \<Rightarrow> int" where
  "roundTiesToEven y =
     (if of_int \<lfloor>y\<rfloor> + 1 / 2 < y then \<lfloor>y\<rfloor> + 1
      else if y < of_int \<lfloor>y\<rfloor> + 1 / 2 then \<lfloor>y\<rfloor>
      else if even \<lfloor>y\<rfloor> then \<lfloor>y\<rfloor>
      else \<lfloor>y\<rfloor> + 1)"

fun searchUp :: "nat \<Rightarrow> int \<Rightarrow> real \<Rightarrow> int" where
  "searchUp 0 e a = e"
| "searchUp (Suc n) e a = (if 2 powi (e + 1) \<le> a then searchUp n (e + 1) a else e)"

fun searchDown :: "nat \<Rightarrow> int \<Rightarrow> real \<Rightarrow> int" where
  "searchDown 0 e a = e"
| "searchDown (Suc n) e a = (if a < 2 powi e then searchDown n (e - 1) a else e)"

definition exponent64 :: "real \<Rightarrow> int" where
  "exponent64 a = (if 1 \<le> a then searchUp 1023 0 a else searchDown 1022 0 a)"

definition quantum64 :: "real \<Rightarrow> real" where
  "quantum64 x = 2 powi (exponent64 \<bar>x\<bar> - 52)"

definition round64 :: "real \<Rightarrow> real" where
  "round64 x =
     (if x = 0 then 0 else of_int (roundTiesToEven (x / quantum64 x)) * quantum64 x)"

text \<open>Decimal rendering of an integer inside a template literal.\<close>

definition digitChar :: "nat \<Rightarrow> char" where
  "digitChar n = char_of (48 + n)"

fun showNat :: "nat \<Rightarrow> string" where
  "showNat n = (if n < 10 then [digitChar n] else showNat (n div 10) @ [digitChar (n mod 10)])"

declare showNat.simps [simp del]

definition showInt :: "int \<Rightarrow> string" where
  "showInt k = (if k < 0 then CHR ''-'' # showNat (nat (- k)) else showNat (nat k))"

section \<open>Transform pipeline (imageService.ts, \<open>generateVariant\<close>)\<close>

record options =
  optBatchNumber :: "string option"
  optShowDate :: "bool option"
  optTextureIntensity :: "real option"
  optExportFormat :: "export_format option"
  optUpscaleFactor :: "real option"
  optOpacity :: "real option"
  optTags :: "string list option"
  optMarketCloaking :: "bool option"

text \<open>\<open>const scale = options.upscaleFactor || 1\<close>: absent and 0 both give 1.\<close>

definition scaleOf :: "options \<Rightarrow> real" where
  "scaleOf opts = (case optUpscaleFactor opts of None \<Rightarrow> 1 | Some s \<Rightarrow> if s = 0 then 1 else s)"

definition sizedWidth :: "HTMLImageElement \<Rightarrow> options \<Rightarrow> nat" where
  "sizedWidth baseImage opts =
     canvasDimension 300 (round64 (real (imgWidth baseImage) * scaleOf opts))"

definition sizedHeight :: "HTMLImageElement \<Rightarrow> options \<Rightarrow> nat" where
  "sizedHeight baseImage opts =
     canvasDimension 150 (round64 (real (imgHeight baseImage) * scaleOf opts))"

text \<open>
  Steps 1 and 2 (geometric jitter and chromatic shift) run under
  \<open>options.marketCloaking\<close> only and draw seven random numbers, in this order.
\<close>

definition cloakingOn :: "options \<Rightarrow> bool" where
  "cloakingOn opts = (optMarketCloaking opts = Some True)"

definition jitterOf :: "env \<Rightarrow> nat \<Rightarrow> nat \<Rightarrow> nat \<Rightarrow> jitter" where
  "jitterOf e cw ch d =
     \<lparr>zoom = 1 + mathRandom e d * 0.03,
      offsetX = (mathRandom e (d + 1) - 0.5) * (real cw * 0.02),
      offsetY = (mathRandom e (d + 2) - 0.5) * (real ch * 0.02),
      microRotation = (mathRandom e (d + 3) - 0.5) * 0.005,
      hue = (mathRandom e (d + 4) - 0.5) * 4,
      brightness = 1 + (mathRandom e (d + 5) - 0.5) * 0.04,
      contrast = 1 + (mathRandom e (d + 6) - 0.5) * 0.04\<rparr>"

text \<open>
  Step 3, the noise loop over \<open>imageData.data\<close>. The array is a list of pixels of four
  bytes each; \<open>i\<close> is the byte offset of the pixel at the head, stepping by 4. One
  random number per pixel makes the noise added to its three colour channels; where
  \<open>i % 100 === 0\<close> a second one sets the alpha byte. The subtraction, the two
  products and the sum \<open>data[i] + noise\<close> are operations on doubles, each rounded; the
  store into the array then rounds the clamped sum to a byte.
\<close>

definition noiseLevelOf :: "options \<Rightarrow> real" where
  "noiseLevelOf opts =
     (case optTextureIntensity opts of
        None \<Rightarrow> round64 (5 / 100)
      | Some t \<Rightarrow> if t = 0 then round64 (5 / 100) else t)"

definition noiseOf :: "real \<Rightarrow> real \<Rightarrow> real" where
  "noiseOf noiseLevel r = round64 (round64 (r - 1 / 2) * round64 (noiseLevel * 15))"

definition jitterChannel :: "real \<Rightarrow> 8 word \<Rightarrow> 8 word" where
  "jitterChannel noise c = toUint8Clamped (min 255 (max 0 (round64 (real (unat c) + noise))))"

definition alphaStamp :: "real \<Rightarrow> 8 word" where
  "alphaStamp r = toUint8Clamped (254 + real_of_int (mathRound r))"

fun noiseLoop :: "env \<Rightarrow> real \<Rightarrow> nat \<Rightarrow> pixel list \<Rightarrow> nat \<Rightarrow> pixel list \<times> nat" where
  "noiseLoop e noiseLevel i [] d = ([], d)"
| "noiseLoop e noiseLevel i ((r, g, b, a) # ps) d =
     (let noise = noiseOf noiseLevel (mathRandom e d);
          stamp = (i mod 100 = 0);
          a' = (if stamp then alphaStamp (mathRandom e (Suc d)) else a);
          d' = (if stamp then Suc (Suc d) else Suc d);
          out = noiseLoop e noiseLevel (i + 4) ps d'
      in ((jitterChannel noise r, jitterChannel noise g, jitterChannel noise b, a') # fst out,
          snd out))"

definition noiseStage :: "env \<Rightarrow> options \<Rightarrow> pixel list \<Rightarrow> nat \<Rightarrow> pixel list \<times> nat" where
  "noiseStage e opts data d = noiseLoop e (noiseLevelOf opts) 0 data d"

text \<open>
  Step 4, the overlay configuration. \<open>FONTS[Math.floor(Math.random() * FONTS.length)]\<close>
  is \<open>undefined\<close> on an empty table.
\<close>

definition pick :: "string list \<Rightarrow> real \<Rightarrow> string option" where
  "pick xs r =
     (let k = \<lfloor>r * real (length xs)\<rfloor>
      in if 0 \<le> k \<and> k < int (length xs) then Some (xs ! nat k) else None)"

definition overlayConfigOf ::
  "env \<Rightarrow> HTMLImageElement \<Rightarrow> string \<Rightarrow> options \<Rightarrow> nat \<Rightarrow> OverlayConfig" where
  "overlayConfigOf e baseImage productName opts d =
     \<lparr>overlayText = productName,
      fontFamily = pick (FONTS e) (mathRandom e d),
      fontSize = (mathRandom e (d + 1) * 0.4 + 0.4) * scaleOf opts * 30,
      color = pick (COLORS e) (mathRandom e (d + 2)),
      posX = (mathRandom e (d + 3) * (real (imgWidth baseImage) * 0.8)
                + real (imgWidth baseImage) * 0.1) * scaleOf opts,
      posY = (mathRandom e (d + 4) * (real (imgHeight baseImage) * 0.8)
                + real (imgHeight baseImage) * 0.1) * scaleOf opts,
      rotation = mathRandom e (d + 5) * pi * 2,
      batchNumber = optBatchNumber opts,
      showDate = optShowDate opts,
      textureIntensity = optTextureIntensity opts,
      exportFormat = Some (case optExportFormat opts of None \<Rightarrow> ImageJpeg | Some f \<Rightarrow> f),
      upscaleFactor = Some (scaleOf opts),
      opacity = Some (case optOpacity opts of None \<Rightarrow> 0.03 | Some a \<Rightarrow> a)\<rparr>"

text \<open>
  The canvas as it is when \<open>toDataURL\<close> is called, with the number of random draws
  made up to and including the overlay configuration.
\<close>

definition paintedData :: "env \<Rightarrow> HTMLImageElement \<Rightarrow> options \<Rightarrow> nat \<Rightarrow> pixel list" where
  "paintedData e baseImage opts d =
     rendered e baseImage (sizedWidth baseImage opts) (sizedHeight baseImage opts)
       (if cloakingOn opts
        then Some (jitterOf e (sizedWidth baseImage opts) (sizedHeight baseImage opts) d)
        else None)"

definition drawsAfterPaint :: "options \<Rightarrow> nat \<Rightarrow> nat" where
  "drawsAfterPaint opts d = (if cloakingOn opts then d + 7 else d)"

definition drawsAfterNoise :: "env \<Rightarrow> HTMLImageElement \<Rightarrow> options \<Rightarrow> nat \<Rightarrow> nat" where
  "drawsAfterNoise e baseImage opts d =
     snd (noiseStage e opts (paintedData e baseImage opts d) (drawsAfterPaint opts d))"

definition finalCanvas :: "env \<Rightarrow> HTMLImageElement \<Rightarrow> string \<Rightarrow> options \<Rightarrow> nat \<Rightarrow> canvas" where
  "finalCanvas e baseImage productName opts d =
     \<lparr>canvasWidth = sizedWidth baseImage opts,
      canvasHeight = sizedHeight baseImage opts,
      canvasData =
        fst (noiseStage e opts (paintedData e baseImage opts d) (drawsAfterPaint opts d)),
      canvasText =
        Some (overlayConfigOf e baseImage productName opts (drawsAfterNoise e baseImage opts d))\<rparr>"

text \<open>
  What the canvas calls of steps 1 to 3 throw, if anything. Under cloaking the canvas
  is redrawn from a copy of itself, and \<open>drawImage\<close> throws \<open>InvalidStateError\<close> for a
  source canvas of width or height 0; \<open>getImageData\<close> throws \<open>IndexSizeError\<close> for a
  width or height of 0, and fails when the pixels cannot be handed out.
\<close>

definition canvasFault :: "env \<Rightarrow> HTMLImageElement \<Rightarrow> options \<Rightarrow> error option" where
  "canvasFault e baseImage opts =
     (if sizedWidth baseImage opts = 0 \<or> sizedHeight baseImage opts = 0
      then (if cloakingOn opts then Some InvalidStateError else Some IndexSizeError)
      else if imageDataReadable e baseImage (sizedWidth baseImage opts) (sizedHeight baseImage opts)
      then None
      else Some ImageDataUnavailable)"

text \<open>Step 5 and the variant object.\<close>

definition formatOf :: "options \<Rightarrow> export_format" where
  "formatOf opts = (case optExportFormat opts of None \<Rightarrow> ImageJpeg | Some f \<Rightarrow> f)"

definition qualityOf :: "env \<Rightarrow> nat \<Rightarrow> real" where
  "qualityOf e d = 0.88 + mathRandom e d * 0.05"

definition variantOf ::
  "env \<Rightarrow> HTMLImageElement \<Rightarrow> string \<Rightarrow> string \<Rightarrow> options \<Rightarrow> world \<Rightarrow> ImageVariant" where
  "variantOf e baseImage productName ident opts w =
     (let d = drawsAfterNoise e baseImage opts (draws w);
          url = toDataURL e (finalCanvas e baseImage productName opts (draws w)) (formatOf opts)
                  (qualityOf e (d + 6))
      in \<lparr>variantId = ident,
          dataUrl = url,
          blobUrl = Some url,
          config = overlayConfigOf e baseImage productName opts d,
          detectedPrice = None,
          detectedShipping = None,
          status = Pending,
          errorMessage = None,
          timestamp = Some (dateNow e (ticks w)),
          tags = optTags opts\<rparr>)"

definition generateVariant ::
  "env \<Rightarrow> HTMLImageElement \<Rightarrow> string \<Rightarrow> string \<Rightarrow> options \<Rightarrow> world
     \<Rightarrow> (error + ImageVariant) \<times> world" where
  "generateVariant e baseImage productName ident opts w =
     (if \<not> getContext2d e then (Inl NoCanvasContext, w)
      else
        (case canvasFault e baseImage opts of
           Some err \<Rightarrow> (Inl err, w\<lparr>draws := drawsAfterPaint opts (draws w)\<rparr>)
         | None \<Rightarrow>
             (let variant = variantOf e baseImage productName ident opts w;
                  w1 = w\<lparr>draws := drawsAfterNoise e baseImage opts (draws w) + 7,
                         ticks := Suc (ticks w)\<rparr>
              in case saveVariantToDB e variant w1 of
                   (Inl err, w2) \<Rightarrow> (Inl err, w2)
                 | (Inr ok, w2) \<Rightarrow> (Inr variant, w2))))"

section \<open>Batch orchestrator (SynthesizerModule, \<open>handleGenerate\<close>)\<close>

text \<open>
  The state of the component. \<open>progressLog\<close> and \<open>exportProgressLog\<close> keep every value
  handed to \<open>setProgress\<close> and \<open>setExportProgress\<close>, oldest first; \<open>delivered\<close> keeps
  every call of \<open>onVariantsGenerated\<close>; \<open>errorLog\<close> keeps what \<open>console.error\<close> got.
\<close>

record synthState =
  baseImage :: "string option"
  productName :: string
  variantCount :: real
  stBatchNumber :: string
  stShowDate :: bool
  stTextureIntensity :: real
  stOpacity :: real
  stExportFormat :: export_format
  stUpscaleFactor :: real
  stTags :: "string list"
  stMarketCloaking :: bool
  autoNavigate :: bool
  isGenerating :: bool
  progressLog :: "real list"
  delivered :: "(ImageVariant list \<times> bool) list"
  errorLog :: "error list"
  lastBatch :: "ImageVariant list"
  isBatchDownloading :: bool
  clearAfterDownload :: bool
  exportProgressLog :: "real list"

definition optionsOfState :: "synthState \<Rightarrow> options" where
  "optionsOfState st =
     \<lparr>optBatchNumber = Some (stBatchNumber st),
      optShowDate = Some (stShowDate st),
      optTextureIntensity = Some (stTextureIntensity st),
      optExportFormat = Some (stExportFormat st),
      optUpscaleFactor = Some (stUpscaleFactor st),
      optOpacity = Some (stOpacity st),
      optTags = Some (stTags st),
      optMarketCloaking = Some (stMarketCloaking st)\<rparr>"

text \<open>The id of item \<open>i\<close>: \<open>`cloaked-${Date.now()}-${i}`\<close>.\<close>

definition variantIdOf :: "env \<Rightarrow> nat \<Rightarrow> world \<Rightarrow> string" where
  "variantIdOf e i w = ''cloaked-'' @ showInt (dateNow e (ticks w)) @ ''-'' @ showNat i"

definition progressAt :: "nat \<Rightarrow> real \<Rightarrow> real" where
  "progressAt i n = (real (i + 1) / n) * 100"

text \<open>
  The \<open>for\<close> loop of \<open>handleGenerate\<close>: it stops at the first rejected call of the
  pipeline, handing the error to the \<open>catch\<close> block.
\<close>

function genLoop ::
  "env \<Rightarrow> HTMLImageElement \<Rightarrow> synthState \<Rightarrow> nat \<Rightarrow> ImageVariant list \<Rightarrow> real list \<Rightarrow> world
     \<Rightarrow> (error + ImageVariant list) \<times> real list \<times> world" where
  "genLoop e img st i newVariants plog w =
     (if real i < variantCount st
      then (case generateVariant e img (productName st) (variantIdOf e i w) (optionsOfState st)
                   (w\<lparr>ticks := Suc (ticks w)\<rparr>) of
              (Inl err, w2) \<Rightarrow> (Inl err, plog, w2)
            | (Inr variant, w2) \<Rightarrow>
                genLoop e img st (Suc i) (newVariants @ [variant])
                  (plog @ [progressAt i (variantCount st)]) w2)
      else (Inr newVariants, plog, w))"
  by pat_completeness auto
termination
proof (relation "measure (\<lambda>(e, img, st, i, newVariants, plog, w). nat \<lceil>variantCount st\<rceil> - i)")
  show "wf (measure (\<lambda>(e, img, st, i, newVariants, plog, w). nat \<lceil>variantCount st\<rceil> - i))"
    by simp
next
  fix e :: env and img :: HTMLImageElement and st :: synthState and i :: nat
    and newVariants :: "ImageVariant list" and plog :: "real list" and w :: world
    and x :: "(error + ImageVariant list) \<times> world" and x1 x2 x2a
  assume "real i < variantCount st"
  then have "int i < \<lceil>variantCount st\<rceil>"
    by linarith
  then show "((e, img, st, Suc i, newVariants @ [x2a], plog @ [progressAt i (variantCount st)], x2),
              (e, img, st, i, newVariants, plog, w))
             \<in> measure (\<lambda>(e, img, st, i, newVariants, plog, w). nat \<lceil>variantCount st\<rceil> - i)"
    by simp
qed

declare genLoop.simps [simp del]

definition handleGenerate :: "env \<Rightarrow> synthState \<Rightarrow> world \<Rightarrow> synthState \<times> world" where
  "handleGenerate e st w =
     (case baseImage st of
        None \<Rightarrow> (st, w)
      | Some src \<Rightarrow>
          (if src = [] \<or> productName st = [] then (st, w)
           else
             (let st1 = st\<lparr>isGenerating := True, progressLog := progressLog st @ [0]\<rparr>
              in (case imageOf e src of
                    None \<Rightarrow>
                      (st1\<lparr>errorLog := errorLog st1 @ [ImageLoadFailed], isGenerating := False\<rparr>, w)
                  | Some img \<Rightarrow>
                      (case genLoop e img st1 0 [] (progressLog st1) w of
                         (Inl err, plog, w') \<Rightarrow>
                           (st1\<lparr>progressLog := plog, errorLog := errorLog st1 @ [err],
                                isGenerating := False\<rparr>, w')
                       | (Inr newVariants, plog, w') \<Rightarrow>
                           (st1\<lparr>progressLog := plog,
                                delivered := delivered st1 @ [(newVariants, autoNavigate st1)],
                                isGenerating := False\<rparr>, w'))))))"

section \<open>Export (\<open>downloadBatchSequentially\<close>, \<open>exportToCSV\<close>)\<close>

text \<open>\<open>v.id.split('-').pop()\<close>: the segments between the separators, and the last one.\<close>

fun splitOn :: "char \<Rightarrow> string \<Rightarrow> string list" where
  "splitOn c [] = [[]]"
| "splitOn c (x # xs) =
     (if x = c then [] # splitOn c xs
      else (case splitOn c xs of [] \<Rightarrow> [[x]] | s # ss \<Rightarrow> (x # s) # ss))"

definition pop :: "string list \<Rightarrow> string" where
  "pop xs = (if xs = [] then ''undefined'' else last xs)"

definition shortIdOf :: "ImageVariant \<Rightarrow> string" where
  "shortIdOf v = pop (splitOn CHR ''-'' (variantId v))"

definition extOf :: "ImageVariant \<Rightarrow> string" where
  "extOf v = (if exportFormat (config v) = Some ImagePng then ''png'' else ''jpg'')"

definition batchFilenameOf :: "ImageVariant \<Rightarrow> string" where
  "batchFilenameOf v = ''cloaked-asset-'' @ shortIdOf v @ ''.'' @ extOf v"

definition csvFilenameOf :: "ImageVariant \<Rightarrow> string" where
  "csvFilenameOf v = ''cloaked_opt_'' @ shortIdOf v @ ''.'' @ extOf v"

text \<open>
  The two buttons that save one variant, \<open>Download Single\<close> of the synthesizer
  (\<open>`v-${v.id.slice(-4)}.jpg`\<close>) and the download of the best variant of the
  insights (\<open>`optimized-master-${shortId}.jpg`\<close>), name the file without looking at
  the format.
\<close>

definition singleFilenameOf :: "ImageVariant \<Rightarrow> string" where
  "singleFilenameOf v = ''v-'' @ drop (length (variantId v) - 4) (variantId v) @ ''.jpg''"

definition bestFilenameOf :: "ImageVariant \<Rightarrow> string" where
  "bestFilenameOf v = ''optimized-master-'' @ shortIdOf v @ ''.jpg''"

text \<open>\<open>downloadImage\<close> does nothing on an empty URL, else clicks a link.\<close>

definition downloadImage :: "string \<Rightarrow> string \<Rightarrow> world \<Rightarrow> world" where
  "downloadImage url filename w =
     (if url = [] then w else w\<lparr>downloads := downloads w @ [(url, filename)]\<rparr>)"

text \<open>
  The click handler of \<open>Download Single\<close> and \<open>handleDownloadBest\<close>, which does
  nothing without a best variant.
\<close>

definition downloadSingle :: "ImageVariant \<Rightarrow> world \<Rightarrow> world" where
  "downloadSingle v w = downloadImage (dataUrl v) (singleFilenameOf v) w"

definition handleDownloadBest :: "ImageVariant option \<Rightarrow> world \<Rightarrow> world" where
  "handleDownloadBest bestVariant w =
     (case bestVariant of
        None \<Rightarrow> w
      | Some v \<Rightarrow> downloadImage (dataUrl v) (bestFilenameOf v) w)"

fun downloadLoop ::
  "ImageVariant list \<Rightarrow> nat \<Rightarrow> nat \<Rightarrow> real list \<Rightarrow> world \<Rightarrow> real list \<times> world" where
  "downloadLoop [] i n plog w = (plog, w)"
| "downloadLoop (v # vs) i n plog w =
     downloadLoop vs (Suc i) n (plog @ [progressAt i (real n)])
       (downloadImage (dataUrl v) (batchFilenameOf v) w)"

text \<open>\<open>onClearHistory\<close> is the \<open>handleClearHistory\<close> of the application shell.\<close>

definition handleClearHistory :: "env \<Rightarrow> world \<Rightarrow> bool \<times> world" where
  "handleClearHistory e w =
     (case clearAllVariantsFromDB e w of
        (Inl err, w') \<Rightarrow> (False, w')
      | (Inr ok, w') \<Rightarrow> (True, w'))"

definition downloadBatchSequentially :: "env \<Rightarrow> synthState \<Rightarrow> world \<Rightarrow> synthState \<times> world" where
  "downloadBatchSequentially e st w =
     (if lastBatch st = [] \<or> isBatchDownloading st then (st, w)
      else
        let out = downloadLoop (lastBatch st) 0 (length (lastBatch st)) (exportProgressLog st) w;
            st1 = st\<lparr>exportProgressLog := fst out @ [0], isBatchDownloading := False\<rparr>
        in if clearAfterDownload st
           then (st1\<lparr>lastBatch := []\<rparr>, snd (handleClearHistory e (snd out)))
           else (st1, snd out))"

fun joinWith :: "string \<Rightarrow> string list \<Rightarrow> string" where
  "joinWith sep [] = []"
| "joinWith sep [x] = x"
| "joinWith sep (x # y # zs) = x @ sep @ joinWith sep (y # zs)"

definition csvHeaders :: "string list" where
  "csvHeaders =
     [''Amazon Link Ref'', ''Flipkart Link Ref'', ''Meesho Link Ref'', ''Local Filename'',
      ''Product Title'', ''Batch Code'', ''Optimized Price'', ''Shipping Fee'', ''Keywords'',
      ''Variant UUID'']"

definition csvRow :: "env \<Rightarrow> ImageVariant \<Rightarrow> string list" where
  "csvRow e v =
     (let filename = csvFilenameOf v
      in [''cdn://'' @ filename, ''cdn://'' @ filename, ''cdn://'' @ filename, filename,
          overlayText (config v),
          (case batchNumber (config v) of
             None \<Rightarrow> ''N/A'' | Some b \<Rightarrow> if b = [] then ''N/A'' else b),
          (case detectedPrice v of
             None \<Rightarrow> ''N/A'' | Some p \<Rightarrow> if p = 0 then ''N/A'' else showNumber e p),
          (case detectedShipping v of None \<Rightarrow> ''N/A'' | Some s \<Rightarrow> showNumber e s),
          (case tags v of None \<Rightarrow> [] | Some ts \<Rightarrow> joinWith ''; '' ts),
          variantId v])"

definition csvContent :: "env \<Rightarrow> ImageVariant list \<Rightarrow> string" where
  "csvContent e variants =
     joinWith [CHR 0x0A]
       (joinWith '','' csvHeaders
        # map (\<lambda>row. joinWith '','' (map (\<lambda>cell. [CHR 0x22] @ cell @ [CHR 0x22]) row))
            (map (csvRow e) variants))"

definition exportToCSV :: "env \<Rightarrow> ImageVariant list \<Rightarrow> world \<Rightarrow> world" where
  "exportToCSV e variants w =
     w\<lparr>downloads := downloads w
          @ [(csvContent e variants, ''listing_batch_'' @ showInt (dateNow e (ticks w)) @ ''.csv'')],
       ticks := Suc (ticks w)\<rparr>"

section \<open>A concrete environment\<close>

text \<open>
  A browser in which every random draw is 0, the clock advances by one millisecond per
  reading, the database never fails, the pixels of every canvas can be read, a source
  image is two pixels wide and one high and renders as the same opaque pixel
  everywhere; and one in which the database always fails.
\<close>

definition demoImage :: HTMLImageElement where
  "demoImage = \<lparr>imgWidth = 2, imgHeight = 1, imgSrc = ''data:image/png;base64,AAAA''\<rparr>"

definition demoEnv :: env where
  "demoEnv =
     \<lparr>mathRandom = (\<lambda>k. 0),
      dateNow = (\<lambda>k. 1700000000000 + int k),
      idbCompletes = (\<lambda>k. True),
      getContext2d = True,
      rendered = (\<lambda>img cw ch j. replicate (cw * ch) (10, 20, 30, 255)),
      toDataURL = (\<lambda>cv f q. ''data:image/jpeg;base64,/9j/''),
      imageDataReadable = (\<lambda>img cw ch. True),
      imageOf = (\<lambda>src. Some demoImage),
      showNumber = (\<lambda>x. showInt \<lfloor>x\<rfloor>),
      FONTS = [''Arial''],
      COLORS = [''#ffffff'']\<rparr>"

definition failingEnv :: env where
  "failingEnv = demoEnv\<lparr>idbCompletes := (\<lambda>k. False)\<rparr>"

definition demoOptions :: options where
  "demoOptions =
     \<lparr>optBatchNumber = None, optShowDate = None, optTextureIntensity = Some 0,
      optExportFormat = None, optUpscaleFactor = None, optOpacity = None, optTags = None,
      optMarketCloaking = Some False\<rparr>"

definition demoState :: synthState where
  "demoState =
     \<lparr>baseImage = Some ''data:image/png;base64,AAAA'', productName = ''Kurti'',
      variantCount = 2, stBatchNumber = ''B-1234'', stShowDate = True,
      stTextureIntensity = 1 / 8, stOpacity = 1 / 32, stExportFormat = ImagePng,
      stUpscaleFactor = 1, stTags = [], stMarketCloaking = True, autoNavigate = False,
      isGenerating = False, progressLog = [], delivered = [], errorLog = [], lastBatch = [],
      isBatchDownloading = False, clearAfterDownload = False, exportProgressLog = []\<rparr>"

definition plainOptions :: options where
  "plainOptions = demoOptions\<lparr>optTextureIntensity := Some (1 / 32)\<rparr>"

definition demoVariant :: ImageVariant where
  "demoVariant =
     \<lparr>variantId = ''cloaked-1700000000000-0'',
      dataUrl = ''data:image/png;base64,iVBOR'',
      blobUrl = Some ''data:image/png;base64,iVBOR'',
      config =
        \<lparr>overlayText = ''Kurti'', fontFamily = Some ''Arial'', fontSize = 12,
         color = Some ''#ffffff'', posX = 1, posY = 1 / 2, rotation = 0,
         batchNumber = Some ''B-1234'', showDate = Some True, textureIntensity = Some (1 / 8),
         exportFormat = Some ImagePng, upscaleFactor = Some 1, opacity = Some (1 / 32)\<rparr>,
      detectedPrice = None,
      detectedShipping = None,
      status = Pending,
      errorMessage = None,
      timestamp = Some 1700000000001,
      tags = Some []\<rparr>"

text \<open>
  The specification's reading of the scale: \<open>upscaleFactor\<close>, or 1 when it is absent.
\<close>

definition requestedFactor :: "options \<Rightarrow> real" where
  "requestedFactor opts = (case optUpscaleFactor opts of None \<Rightarrow> 1 | Some s \<Rightarrow> s)"

text \<open>
  An image of 800 by 600 pixels and the double nearest to 1.2, which is
  \<open>5404319552844595 / 2 ^ 52\<close>.
\<close>

definition photoImage :: HTMLImageElement where
  "photoImage = \<lparr>imgWidth = 800, imgHeight = 600, imgSrc = ''data:image/png;base64,AAAA''\<rparr>"

definition double_1_2 :: real where
  "double_1_2 = 5404319552844595 / 4503599627370496"

section \<open>Store properties\<close>

lemma store_put_keys: "fst ` set (store_put v s) = insert (variantId v) (fst ` set s)"
proof (induction s)
  case Nil
  then show ?case by simp
next
  case (Cons p s)
  obtain k u where p: "p = (k, u)" by (cases p)
  show ?case using Cons.IH by (auto simp: p)
qed

lemma store_put_sorted:
  "sorted_wrt (<) (map fst s) \<Longrightarrow> sorted_wrt (<) (map fst (store_put v s))"
proof (induction s)
  case Nil
  then show ?case by simp
next
  case (Cons p s)
  obtain k u where p: "p = (k, u)" by (cases p)
  show ?case
  proof (cases "variantId v = k")
    case True
    with Cons.prems p show ?thesis by simp
  next
    case False
    show ?thesis
    proof (cases "variantId v < k")
      case True
      with Cons.prems p False show ?thesis by auto
    next
      case ge: False
      from Cons.prems p have tl: "sorted_wrt (<) (map fst s)" and hd: "\<forall>x\<in>fst ` set s. k < x"
        by auto
      from False ge have "k < variantId v" by auto
      with hd have "\<forall>x\<in>fst ` set (store_put v s). k < x"
        by (simp add: store_put_keys)
      with Cons.IH [OF tl] p False ge show ?thesis by simp
    qed
  qed
qed

lemma store_put_keyed:
  "list_all (\<lambda>(k, v). k = variantId v) s \<Longrightarrow> list_all (\<lambda>(k, v). k = variantId v) (store_put v s)"
  by (induction s) (auto split: if_splits)

lemma store_put_ok: "store_ok s \<Longrightarrow> store_ok (store_put v s)"
  by (simp add: store_ok_def store_put_sorted store_put_keyed)

lemma map_of_store_put: "map_of (store_put v s) = (map_of s)(variantId v \<mapsto> v)"
  by (induction s) (auto simp: fun_upd_twist)

lemma store_ok_distinct: "store_ok s \<Longrightarrow> distinct (map variantId (store_getAll s))"
proof -
  assume ok: "store_ok s"
  then have "list_all (\<lambda>(k, v). k = variantId v) s"
    by (simp add: store_ok_def)
  then have eq: "map variantId (map snd s) = map fst s"
    by (induction s) auto
  from ok have d: "distinct (map fst s)"
    by (simp add: store_ok_def strict_sorted_iff)
  show ?thesis unfolding store_getAll_def eq by (rule d)
qed

lemma store_ok_member:
  "store_ok s \<Longrightarrow> u \<in> set (store_getAll s) \<longleftrightarrow> map_of s (variantId u) = Some u"
proof -
  assume ok: "store_ok s"
  then have d: "distinct (map fst s)"
    by (simp add: store_ok_def strict_sorted_iff)
  from ok have keyed: "\<forall>(k, v)\<in>set s. k = variantId v"
    by (simp add: store_ok_def list_all_iff)
  have "u \<in> set (store_getAll s) \<longleftrightarrow> (variantId u, u) \<in> set s"
    using keyed by (force simp: store_getAll_def)
  with d show ?thesis by simp
qed

lemma run_calls_refines:
  "store_ok (records w) \<Longrightarrow>
   store_ok (records (run_calls e cs w)) \<and>
   map_of (records (run_calls e cs w)) = last_writes e cs (idbOps w) (map_of (records w))"
proof (induction cs arbitrary: w)
  case Nil
  then show ?case by simp
next
  case (Cons c cs)
  show ?case
  proof (cases c)
    case (PutCall v)
    let ?w = "snd (saveVariantToDB e v w)"
    have ok: "store_ok (records ?w)"
      using Cons.prems by (simp add: saveVariantToDB_def store_put_ok)
    have "idbOps ?w = Suc (idbOps w)"
      by (simp add: saveVariantToDB_def)
    moreover have "map_of (records ?w) =
        (if idbCompletes e (idbOps w) then (map_of (records w))(variantId v \<mapsto> v)
         else map_of (records w))"
      by (simp add: saveVariantToDB_def map_of_store_put)
    ultimately show ?thesis
      using Cons.IH [OF ok] PutCall by simp
  next
    case GetAllCall
    let ?w = "snd (getAllVariantsFromDB e w)"
    have "store_ok (records ?w)" "idbOps ?w = Suc (idbOps w)" "records ?w = records w"
      using Cons.prems by (simp_all add: getAllVariantsFromDB_def)
    then show ?thesis
      using Cons.IH [of ?w] GetAllCall by simp
  next
    case ClearCall
    let ?w = "snd (clearAllVariantsFromDB e w)"
    have ok: "store_ok (records ?w)"
      using Cons.prems by (simp add: clearAllVariantsFromDB_def store_clear_def store_ok_def)
    have "idbOps ?w = Suc (idbOps w)"
      by (simp add: clearAllVariantsFromDB_def)
    moreover have "map_of (records ?w) =
        (if idbCompletes e (idbOps w) then Map.empty else map_of (records w))"
      by (auto simp: clearAllVariantsFromDB_def store_clear_def)
    ultimately show ?thesis
      using Cons.IH [OF ok] ClearCall by simp
  qed
qed

text \<open>
  C4. After any sequence of store calls on a fresh database, a completed \<open>getAll\<close>
  returns a list with pairwise distinct ids, and a variant is in it exactly when it is
  the last one that a completed put wrote under its id (since the last completed
  clear): one entry per id, last write wins, no duplicate.
\<close>

theorem store_one_entry_per_id_last_write_wins:
  assumes "fst (getAllVariantsFromDB e (run_calls e cs emptyWorld)) = Inr vs"
  shows "distinct (map variantId vs) \<and>
         (\<forall>u. u \<in> set vs \<longleftrightarrow> last_writes e cs 0 Map.empty (variantId u) = Some u)"
proof -
  let ?w = "run_calls e cs emptyWorld"
  have "store_ok (records emptyWorld)"
    by (simp add: emptyWorld_def store_ok_def)
  from run_calls_refines [OF this, of e cs]
  have ok: "store_ok (records ?w)"
    and m: "map_of (records ?w) = last_writes e cs 0 Map.empty"
    by (simp_all add: emptyWorld_def)
  from assms have vs: "vs = store_getAll (records ?w)"
    by (auto simp: getAllVariantsFromDB_def split: if_splits)
  show ?thesis
    using store_ok_distinct [OF ok] store_ok_member [OF ok] m vs by simp
qed


theorem store_one_entry_per_id_last_write_wins_witness:
  "fst (getAllVariantsFromDB demoEnv
          (run_calls demoEnv [PutCall demoVariant, PutCall (demoVariant\<lparr>status := Completed\<rparr>)]
             emptyWorld))
     = Inr [demoVariant\<lparr>status := Completed\<rparr>] \<and>
   distinct (map variantId [demoVariant\<lparr>status := Completed\<rparr>]) \<and>
   last_writes demoEnv [PutCall demoVariant, PutCall (demoVariant\<lparr>status := Completed\<rparr>)] 0
     Map.empty (variantId demoVariant) = Some (demoVariant\<lparr>status := Completed\<rparr>)"
proof -
  have run: "fst (getAllVariantsFromDB demoEnv
          (run_calls demoEnv [PutCall demoVariant, PutCall (demoVariant\<lparr>status := Completed\<rparr>)]
             emptyWorld))
     = Inr [demoVariant\<lparr>status := Completed\<rparr>]"
    by (simp add: getAllVariantsFromDB_def saveVariantToDB_def store_getAll_def demoEnv_def
        emptyWorld_def)
  from store_one_entry_per_id_last_write_wins [OF run]
  have d: "distinct (map variantId [demoVariant\<lparr>status := Completed\<rparr>])"
    and m: "\<forall>u. u \<in> set [demoVariant\<lparr>status := Completed\<rparr>] \<longleftrightarrow>
      last_writes demoEnv [PutCall demoVariant, PutCall (demoVariant\<lparr>status := Completed\<rparr>)] 0
        Map.empty (variantId u) = Some u"
    by blast+
  from m have "demoVariant\<lparr>status := Completed\<rparr> \<in> set [demoVariant\<lparr>status := Completed\<rparr>] \<longleftrightarrow>
      last_writes demoEnv [PutCall demoVariant, PutCall (demoVariant\<lparr>status := Completed\<rparr>)] 0
        Map.empty (variantId (demoVariant\<lparr>status := Completed\<rparr>))
      = Some (demoVariant\<lparr>status := Completed\<rparr>)"
    by (rule spec)
  then have "last_writes demoEnv [PutCall demoVariant, PutCall (demoVariant\<lparr>status := Completed\<rparr>)] 0
        Map.empty (variantId demoVariant) = Some (demoVariant\<lparr>status := Completed\<rparr>)"
    by (simp del: last_writes.simps)
  with run d show ?thesis by (simp del: last_writes.simps run_calls.simps)
qed

section \<open>Rounding to doubles\<close>

lemma roundTiesToEven_near: "\<bar>real_of_int (roundTiesToEven y) - y\<bar> \<le> 1 / 2"
proof -
  have "real_of_int \<lfloor>y\<rfloor> \<le> y" "y < real_of_int \<lfloor>y\<rfloor> + 1" by linarith+
  then show ?thesis by (auto simp: roundTiesToEven_def)
qed

lemma roundTiesToEven_ge: "real_of_int n \<le> y \<Longrightarrow> n \<le> roundTiesToEven y"
proof -
  assume "real_of_int n \<le> y"
  then have "n \<le> \<lfloor>y\<rfloor>" by (simp add: le_floor_iff)
  then show ?thesis by (auto simp: roundTiesToEven_def)
qed

lemma roundTiesToEven_le: "y \<le> real_of_int n \<Longrightarrow> roundTiesToEven y \<le> n"
proof -
  assume le: "y \<le> real_of_int n"
  then have f: "\<lfloor>y\<rfloor> \<le> n" by (simp add: floor_le_iff)
  show ?thesis
  proof (cases "\<lfloor>y\<rfloor> = n")
    case True
    with le have "y = real_of_int \<lfloor>y\<rfloor>" by linarith
    then show ?thesis using True by (simp add: roundTiesToEven_def)
  next
    case False
    with f have "\<lfloor>y\<rfloor> + 1 \<le> n" by simp
    then show ?thesis using f by (auto simp: roundTiesToEven_def)
  qed
qed

lemma searchUp_lower: "2 powi e \<le> a \<Longrightarrow> 2 powi (searchUp n e a) \<le> a"
  by (induction n arbitrary: e) auto

lemma searchUp_range: "e \<le> searchUp n e a \<and> searchUp n e a \<le> e + int n"
proof (induction n arbitrary: e)
  case 0
  then show ?case by simp
next
  case (Suc n)
  from Suc [of "e + 1"] show ?case by auto
qed

lemma searchUp_binade:
  "e \<le> k \<Longrightarrow> k \<le> e + int n \<Longrightarrow> 2 powi k \<le> a \<Longrightarrow> a < 2 powi (k + 1) \<Longrightarrow> searchUp n e a = k"
proof (induction n arbitrary: e)
  case 0
  then show ?case by simp
next
  case (Suc n)
  show ?case
  proof (cases "e = k")
    case True
    with Suc.prems show ?thesis by simp
  next
    case False
    with Suc.prems have lt: "e + 1 \<le> k" by simp
    then have "(2::real) powi (e + 1) \<le> 2 powi k"
      by (intro power_int_increasing) simp_all
    with Suc.prems have "2 powi (e + 1) \<le> a" by linarith
    moreover from Suc.prems lt have "searchUp n (e + 1) a = k"
      by (intro Suc.IH) simp_all
    ultimately show ?thesis by simp
  qed
qed

lemma searchDown_lower: "2 powi (searchDown n e a) \<le> a \<or> searchDown n e a = e - int n"
proof (induction n arbitrary: e)
  case 0
  then show ?case by simp
next
  case (Suc n)
  from Suc [of "e - 1"] show ?case by (auto simp: not_less)
qed

lemma searchDown_range: "e - int n \<le> searchDown n e a \<and> searchDown n e a \<le> e"
proof (induction n arbitrary: e)
  case 0
  then show ?case by simp
next
  case (Suc n)
  from Suc [of "e - 1"] show ?case by auto
qed

lemma searchDown_binade:
  "k \<le> e \<Longrightarrow> e - int n \<le> k \<Longrightarrow> 2 powi k \<le> a \<Longrightarrow> a < 2 powi (k + 1) \<Longrightarrow> searchDown n e a = k"
proof (induction n arbitrary: e)
  case 0
  then show ?case by simp
next
  case (Suc n)
  show ?case
  proof (cases "e = k")
    case True
    with Suc.prems show ?thesis by simp
  next
    case False
    with Suc.prems have lt: "k + 1 \<le> e" by simp
    then have "(2::real) powi (k + 1) \<le> 2 powi e"
      by (intro power_int_increasing) simp_all
    with Suc.prems have "a < 2 powi e" by linarith
    moreover from Suc.prems lt have "searchDown n (e - 1) a = k"
      by (intro Suc.IH) simp_all
    ultimately show ?thesis by simp
  qed
qed

lemma exponent64_range: "- 1022 \<le> exponent64 a \<and> exponent64 a \<le> 1023"
  using searchUp_range [of 0 1023 a] searchDown_range [of 0 1022 a]
  by (auto simp: exponent64_def)

lemma exponent64_lower: "2 powi (exponent64 a) \<le> a \<or> exponent64 a = - 1022"
proof (cases "1 \<le> a")
  case True
  then have "2 powi (0::int) \<le> a" by simp
  from searchUp_lower [OF this, of 1023] True show ?thesis by (simp add: exponent64_def)
next
  case False
  with searchDown_lower [of 1022 0 a] show ?thesis by (simp add: exponent64_def)
qed

lemma exponent64_binade:
  assumes "- 1022 \<le> k" "k \<le> 1023" "2 powi k \<le> a" "a < 2 powi (k + 1)"
  shows "exponent64 a = k"
proof (cases "1 \<le> a")
  case True
  have "0 \<le> k"
  proof (rule ccontr)
    assume "\<not> 0 \<le> k"
    then have "(2::real) powi (k + 1) \<le> 2 powi 0" by (intro power_int_increasing) simp_all
    with assms(4) True show False by simp
  qed
  with assms have "searchUp 1023 0 a = k" by (intro searchUp_binade) simp_all
  with True show ?thesis by (simp add: exponent64_def)
next
  case False
  have "k < 0"
  proof (rule ccontr)
    assume "\<not> k < 0"
    then have "(2::real) powi 0 \<le> 2 powi k" by (intro power_int_increasing) simp_all
    with assms(3) False show False by simp
  qed
  with assms have "searchDown 1022 0 a = k" by (intro searchDown_binade) simp_all
  with False show ?thesis by (simp add: exponent64_def)
qed

lemma exponent64_upper:
  assumes "a < 2 powi (t + 1)" "- 1022 \<le> t"
  shows "exponent64 a \<le> t"
proof -
  from exponent64_lower [of a] show ?thesis
  proof
    assume "2 powi exponent64 a \<le> a"
    with assms(1) have "(2::real) powi exponent64 a < 2 powi (t + 1)" by linarith
    then have "exponent64 a < t + 1"
    proof (rule contrapos_pp)
      assume "\<not> exponent64 a < t + 1"
      then have "(2::real) powi (t + 1) \<le> 2 powi exponent64 a"
        by (intro power_int_increasing) simp_all
      then show "\<not> (2::real) powi exponent64 a < 2 powi (t + 1)" by simp
    qed
    then show ?thesis by simp
  next
    assume "exponent64 a = - 1022"
    with assms(2) show ?thesis by simp
  qed
qed

lemma quantum64_pos: "0 < quantum64 x"
  by (simp add: quantum64_def)

lemma quantum64_le: "quantum64 x \<le> \<bar>x\<bar> / 2 ^ 52 \<or> quantum64 x = 2 powi (- 1074)"
proof -
  from exponent64_lower [of "\<bar>x\<bar>"] show ?thesis
  proof
    assume le: "2 powi exponent64 \<bar>x\<bar> \<le> \<bar>x\<bar>"
    have "(2::real) powi (exponent64 \<bar>x\<bar> - 52) = 2 powi exponent64 \<bar>x\<bar> * 2 powi (- 52)"
      using power_int_add [of "2::real" "exponent64 \<bar>x\<bar>" "- 52"] by simp
    also have "(2::real) powi (- 52) = 1 / 2 ^ 52"
      by (simp add: power_int_minus_divide)
    finally have "quantum64 x = 2 powi exponent64 \<bar>x\<bar> / 2 ^ 52"
      by (simp add: quantum64_def)
    also have "\<dots> \<le> \<bar>x\<bar> / 2 ^ 52"
      using le by (simp add: divide_right_mono)
    finally show ?thesis by simp
  next
    assume "exponent64 \<bar>x\<bar> = - 1022"
    then show ?thesis by (simp add: quantum64_def)
  qed
qed


lemma round64_error: "\<bar>round64 x - x\<bar> \<le> quantum64 x / 2"
proof (cases "x = 0")
  case True
  then show ?thesis using quantum64_pos [of x] by (simp add: round64_def)
next
  case False
  let ?q = "quantum64 x"
  have q: "0 < ?q" by (rule quantum64_pos)
  have "\<bar>real_of_int (roundTiesToEven (x / ?q)) - x / ?q\<bar> \<le> 1 / 2"
    by (rule roundTiesToEven_near)
  then have "\<bar>real_of_int (roundTiesToEven (x / ?q)) - x / ?q\<bar> * ?q \<le> 1 / 2 * ?q"
    using q by (intro mult_right_mono) simp_all
  moreover have "\<bar>real_of_int (roundTiesToEven (x / ?q)) - x / ?q\<bar> * ?q
      = \<bar>real_of_int (roundTiesToEven (x / ?q)) * ?q - x\<bar>"
  proof -
    have "\<bar>real_of_int (roundTiesToEven (x / ?q)) - x / ?q\<bar> * ?q
        = \<bar>(real_of_int (roundTiesToEven (x / ?q)) - x / ?q) * ?q\<bar>"
      using q by (simp add: abs_mult)
    also have "(real_of_int (roundTiesToEven (x / ?q)) - x / ?q) * ?q
        = real_of_int (roundTiesToEven (x / ?q)) * ?q - x"
      using q by (simp add: field_simps)
    finally show ?thesis .
  qed
  ultimately show ?thesis using False by (simp add: round64_def)
qed

lemma round64_relative: "\<bar>round64 x - x\<bar> \<le> \<bar>x\<bar> / 2 ^ 53 + 1 / 2 ^ 1075"
proof -
  have e: "\<bar>round64 x - x\<bar> \<le> quantum64 x / 2" by (rule round64_error)
  have tiny: "(0::real) \<le> 1 / 2 ^ 1075" by (rule divide_nonneg_nonneg) simp_all
  from quantum64_le [of x] show ?thesis
  proof
    assume "quantum64 x \<le> \<bar>x\<bar> / 2 ^ 52"
    then have "quantum64 x / 2 \<le> \<bar>x\<bar> / 2 ^ 53" by simp
    with e tiny show ?thesis by linarith
  next
    assume "quantum64 x = 2 powi (- 1074)"
    then have "quantum64 x / 2 = 1 / 2 ^ 1075"
      by (simp add: power_int_minus_divide)
    moreover have "0 \<le> \<bar>x\<bar> / 2 ^ 53" by simp
    ultimately show ?thesis using e by linarith
  qed
qed

lemma quantum64_divides:
  assumes "\<bar>x\<bar> < 2 powi (t + 1)" "- 1022 \<le> t"
  shows "\<exists>m::nat. 2 powi (t - 52) = 2 ^ m * quantum64 x"
proof -
  from exponent64_upper [OF assms] have le: "exponent64 \<bar>x\<bar> \<le> t" .
  have "(2::real) powi (t - 52) = 2 powi (t - exponent64 \<bar>x\<bar>) * 2 powi (exponent64 \<bar>x\<bar> - 52)"
    using power_int_add [of "2::real" "t - exponent64 \<bar>x\<bar>" "exponent64 \<bar>x\<bar> - 52"] by simp
  also have "(2::real) powi (t - exponent64 \<bar>x\<bar>) = 2 ^ nat (t - exponent64 \<bar>x\<bar>)"
    using le by (simp add: power_int_nonneg_exp)
  finally show ?thesis unfolding quantum64_def by blast
qed

lemma round64_le_multiple:
  assumes "d = real_of_int n * quantum64 x" "x \<le> d"
  shows "round64 x \<le> d"
proof (cases "x = 0")
  case True
  with assms show ?thesis by (simp add: round64_def)
next
  case False
  have q: "0 < quantum64 x" by (rule quantum64_pos)
  from assms q have "x / quantum64 x \<le> real_of_int n"
    by (simp add: pos_divide_le_eq)
  then have "roundTiesToEven (x / quantum64 x) \<le> n" by (rule roundTiesToEven_le)
  then have "real_of_int (roundTiesToEven (x / quantum64 x)) \<le> real_of_int n" by simp
  then have "real_of_int (roundTiesToEven (x / quantum64 x)) * quantum64 x
      \<le> real_of_int n * quantum64 x"
    using q by (intro mult_right_mono) simp_all
  with False assms show ?thesis by (simp add: round64_def)
qed

lemma round64_ge_multiple:
  assumes "d = real_of_int n * quantum64 x" "d \<le> x"
  shows "d \<le> round64 x"
proof (cases "x = 0")
  case True
  with assms show ?thesis by (simp add: round64_def)
next
  case False
  have q: "0 < quantum64 x" by (rule quantum64_pos)
  from assms q have "real_of_int n \<le> x / quantum64 x"
    by (simp add: pos_le_divide_eq)
  then have "n \<le> roundTiesToEven (x / quantum64 x)" by (rule roundTiesToEven_ge)
  then have "real_of_int n \<le> real_of_int (roundTiesToEven (x / quantum64 x))" by simp
  then have "real_of_int n * quantum64 x
      \<le> real_of_int (roundTiesToEven (x / quantum64 x)) * quantum64 x"
    using q by (intro mult_right_mono) simp_all
  with False assms show ?thesis by (simp add: round64_def)
qed

lemma int_multiple_of_quantum:
  assumes "\<bar>x\<bar> < 2 ^ 53"
  shows "\<exists>n. real_of_int k = real_of_int n * quantum64 x"
proof -
  have "\<bar>x\<bar> < 2 powi (52 + 1)" using assms by simp
  from quantum64_divides [OF this] obtain m :: nat where "2 powi (52 - 52) = 2 ^ m * quantum64 x"
    by auto
  then have "1 = 2 ^ m * quantum64 x" by simp
  then have "real_of_int k = real_of_int (k * 2 ^ m) * quantum64 x"
    by (simp add: mult.assoc)
  then show ?thesis ..
qed

lemma round64_le_int: "\<bar>x\<bar> < 2 ^ 53 \<Longrightarrow> x \<le> real_of_int k \<Longrightarrow> round64 x \<le> real_of_int k"
  using int_multiple_of_quantum [of x k] round64_le_multiple [of "real_of_int k" _ x] by blast

lemma round64_ge_int: "\<bar>x\<bar> < 2 ^ 53 \<Longrightarrow> real_of_int k \<le> x \<Longrightarrow> real_of_int k \<le> round64 x"
  using int_multiple_of_quantum [of x k] round64_ge_multiple [of "real_of_int k" _ x] by blast

lemma round64_of_int: "\<bar>real_of_int k\<bar> < 2 ^ 53 \<Longrightarrow> round64 (real_of_int k) = real_of_int k"
  using round64_le_int [of "real_of_int k" k] round64_ge_int [of "real_of_int k" k] by simp

lemma round64_half:
  assumes "\<bar>x\<bar> \<le> 1 / 2"
  shows "\<bar>round64 x\<bar> \<le> 1 / 2"
proof -
  have "\<bar>x\<bar> < 2 powi (- 1 + 1)" using assms by simp
  from quantum64_divides [OF this] obtain m :: nat where "2 powi (- 1 - 52) = 2 ^ m * quantum64 x"
    by auto
  then have m: "2 powi (- 53) = 2 ^ m * quantum64 x" by simp
  have "(1::real) / 2 = 2 ^ 52 * 2 powi (- 53)"
    by (simp add: power_int_minus_divide)
  also have "\<dots> = real_of_int (2 ^ 52 * 2 ^ m) * quantum64 x"
    unfolding m by (simp add: mult.assoc)
  finally have hi: "(1::real) / 2 = real_of_int (2 ^ 52 * 2 ^ m) * quantum64 x" .
  then have lo: "- ((1::real) / 2) = real_of_int (- (2 ^ 52 * 2 ^ m)) * quantum64 x"
    by simp
  from assms have "x \<le> 1 / 2" "- (1 / 2) \<le> x" by linarith+
  with round64_le_multiple [OF hi] round64_ge_multiple [OF lo]
  have "round64 x \<le> 1 / 2" "- (1 / 2) \<le> round64 x" by blast+
  then show ?thesis by linarith
qed

lemma round64_in_binade:
  assumes "- 1022 \<le> k" "k \<le> 1023" "2 powi k \<le> \<bar>x\<bar>" "\<bar>x\<bar> < 2 powi (k + 1)"
  shows "round64 x = real_of_int (roundTiesToEven (x / 2 powi (k - 52))) * 2 powi (k - 52)"
proof -
  from exponent64_binade [OF assms] have "quantum64 x = 2 powi (k - 52)"
    by (simp add: quantum64_def)
  moreover have "(0::real) < 2 powi k" by (rule zero_less_power_int) simp
  with assms(3) have "0 < \<bar>x\<bar>" by linarith
  then have "x \<noteq> 0" by simp
  ultimately show ?thesis by (simp add: round64_def)
qed

lemma sized_photo:
  "round64 (800 * double_1_2) = 960" "round64 (600 * double_1_2) = 720"
proof -
  have a: "\<bar>800 * double_1_2\<bar> = 800 * double_1_2" "\<bar>600 * double_1_2\<bar> = 600 * double_1_2"
    by (simp_all add: double_1_2_def)
  have w: "round64 (800 * double_1_2)
      = real_of_int (roundTiesToEven (800 * double_1_2 / 2 powi (9 - 52))) * 2 powi (9 - 52)"
    by (rule round64_in_binade) (simp_all add: a, simp_all add: double_1_2_def)
  have h: "round64 (600 * double_1_2)
      = real_of_int (roundTiesToEven (600 * double_1_2 / 2 powi (9 - 52))) * 2 powi (9 - 52)"
    by (rule round64_in_binade) (simp_all add: a, simp_all add: double_1_2_def)
  show "round64 (800 * double_1_2) = 960"
    unfolding w by (simp add: double_1_2_def roundTiesToEven_def power_int_minus_divide)
  show "round64 (600 * double_1_2) = 720"
    unfolding h by (simp add: double_1_2_def roundTiesToEven_def power_int_minus_divide)
qed

section \<open>Bytes of the pixel array\<close>

lemma unat_word8_of_int: "0 \<le> k \<Longrightarrow> k \<le> 255 \<Longrightarrow> unat (word_of_int k :: 8 word) = nat k"
  by (simp add: unat_eq_nat_uint uint_word_of_int)

lemma word8_of_unat: "word_of_int (int (unat (c :: 8 word))) = c"
  by simp

lemma unat_word8_le: "unat (c :: 8 word) \<le> 255"
proof -
  have "unat c < 2 ^ LENGTH(8)" by (rule unsigned_less)
  then show ?thesis by simp
qed

lemma toUint8Clamped_near:
  assumes "0 < x" "x < 255"
  shows "\<exists>k. toUint8Clamped x = word_of_int k \<and> \<bar>real_of_int k - x\<bar> \<le> 1 / 2 \<and> 0 \<le> k \<and> k \<le> 255"
proof -
  have f0: "0 \<le> \<lfloor>x\<rfloor>" using assms by simp
  have f1: "\<lfloor>x\<rfloor> \<le> 254" using assms by linarith
  have fl: "real_of_int \<lfloor>x\<rfloor> \<le> x" "x < real_of_int \<lfloor>x\<rfloor> + 1" by linarith+
  show ?thesis
  proof (cases "of_int \<lfloor>x\<rfloor> + 1 / 2 < x")
    case True
    then have "toUint8Clamped x = word_of_int (\<lfloor>x\<rfloor> + 1)"
      using assms by (simp add: toUint8Clamped_def)
    moreover have "\<bar>real_of_int (\<lfloor>x\<rfloor> + 1) - x\<bar> \<le> 1 / 2" using True fl by simp
    ultimately show ?thesis using f0 f1 by (intro exI [of _ "\<lfloor>x\<rfloor> + 1"]) simp
  next
    case False
    show ?thesis
    proof (cases "x < of_int \<lfloor>x\<rfloor> + 1 / 2")
      case True
      then have "toUint8Clamped x = word_of_int \<lfloor>x\<rfloor>"
        using assms False by (simp add: toUint8Clamped_def)
      moreover have "\<bar>real_of_int \<lfloor>x\<rfloor> - x\<bar> \<le> 1 / 2" using True fl by simp
      ultimately show ?thesis using f0 f1 by (intro exI [of _ "\<lfloor>x\<rfloor>"]) simp
    next
      case tie: False
      with False have eq: "x = of_int \<lfloor>x\<rfloor> + 1 / 2" by simp
      show ?thesis
      proof (cases "even \<lfloor>x\<rfloor>")
        case True
        then have "toUint8Clamped x = word_of_int \<lfloor>x\<rfloor>"
          using assms False tie by (simp add: toUint8Clamped_def)
        moreover have "\<bar>real_of_int \<lfloor>x\<rfloor> - x\<bar> \<le> 1 / 2" using eq by linarith
        ultimately show ?thesis using f0 f1 by (intro exI [of _ "\<lfloor>x\<rfloor>"]) simp
      next
        case odd: False
        then have "toUint8Clamped x = word_of_int (\<lfloor>x\<rfloor> + 1)"
          using assms False tie by (simp add: toUint8Clamped_def)
        moreover have "\<bar>real_of_int (\<lfloor>x\<rfloor> + 1) - x\<bar> \<le> 1 / 2" using eq by linarith
        ultimately show ?thesis using f0 f1 by (intro exI [of _ "\<lfloor>x\<rfloor> + 1"]) simp
      qed
    qed
  qed
qed

lemma storedByte_bound:
  "\<bar>real (unat (toUint8Clamped (min 255 (max 0 y)))) - real (unat (c :: 8 word))\<bar>
     \<le> \<bar>y - real (unat c)\<bar> + 1 / 2"
proof -
  let ?x = "min 255 (max 0 y)"
  have c255: "real (unat c) \<le> 255" using unat_word8_le [of c] by linarith
  have c0: "0 \<le> real (unat c)" by (rule of_nat_0_le_iff)
  consider "?x \<le> 0" | "255 \<le> ?x" | "0 < ?x" "?x < 255" by linarith
  then show ?thesis
  proof cases
    case 1
    then have "toUint8Clamped ?x = 0" by (simp add: toUint8Clamped_def)
    then have "real (unat (toUint8Clamped ?x)) = 0" by simp
    moreover from 1 have "y \<le> 0" by linarith
    ultimately show ?thesis using c0 by linarith
  next
    case 2
    then have "toUint8Clamped ?x = 255" by (simp add: toUint8Clamped_def)
    then have "real (unat (toUint8Clamped ?x)) = 255" by simp
    moreover from 2 have "255 \<le> y" by linarith
    ultimately show ?thesis using c255 by linarith
  next
    case 3
    from toUint8Clamped_near [OF 3] obtain k where
      k: "toUint8Clamped ?x = word_of_int k" "\<bar>real_of_int k - ?x\<bar> \<le> 1 / 2" "0 \<le> k" "k \<le> 255"
      by blast
    from 3 have xy: "?x = y" by linarith
    have "real (unat (toUint8Clamped ?x)) = real_of_int k"
      using k by (simp add: unat_word8_of_int)
    with k(2) xy show ?thesis by linarith
  qed
qed

lemma storedByte_same:
  assumes "\<bar>y - real (unat (c :: 8 word))\<bar> < 1 / 2"
  shows "toUint8Clamped (min 255 (max 0 y)) = c"
proof -
  have "\<bar>real (unat (toUint8Clamped (min 255 (max 0 y)))) - real (unat c)\<bar> < 1"
    using storedByte_bound [of y c] assms by linarith
  then have "unat (toUint8Clamped (min 255 (max 0 y))) = unat c" by linarith
  then show ?thesis by (simp add: word_unat_eq_iff)
qed

lemma tiny_le: "(1::real) / 2 ^ 1075 \<le> 1 / 2 ^ 53"
  by (intro divide_left_mono power_increasing mult_pos_pos zero_less_power) simp_all

lemma byte_sum_rounded:
  "\<bar>round64 (real (unat (c :: 8 word)) + noise) - real (unat c)\<bar>
     \<le> \<bar>noise\<bar> + (255 + \<bar>noise\<bar>) / 2 ^ 53 + 1 / 2 ^ 1075"
proof -
  have c255: "real (unat c) \<le> 255" using unat_word8_le [of c] by linarith
  have c0: "0 \<le> real (unat c)" by (rule of_nat_0_le_iff)
  have "\<bar>real (unat c) + noise\<bar> \<le> 255 + \<bar>noise\<bar>" using c255 c0 by linarith
  then have "\<bar>real (unat c) + noise\<bar> / 2 ^ 53 \<le> (255 + \<bar>noise\<bar>) / 2 ^ 53"
    by (rule divide_right_mono) simp
  with round64_relative [of "real (unat c) + noise"] show ?thesis by linarith
qed


lemma jitterChannel_small:
  assumes "\<bar>noise\<bar> \<le> 7 / 16"
  shows "jitterChannel noise c = c"
proof -
  have "(255 + \<bar>noise\<bar>) / 2 ^ 53 \<le> 256 / 2 ^ 53"
    using assms by (intro divide_right_mono) simp_all
  with byte_sum_rounded [of c noise] tiny_le assms
  have "\<bar>round64 (real (unat c) + noise) - real (unat c)\<bar> \<le> 7 / 16 + 256 / 2 ^ 53 + 1 / 2 ^ 53"
    by linarith
  also have "\<dots> < 1 / 2" by simp
  finally show ?thesis unfolding jitterChannel_def by (rule storedByte_same)
qed

lemma jitterChannel_to:
  assumes "\<bar>real (unat c) + noise - real (unat (k :: 8 word))\<bar> \<le> 7 / 16" "\<bar>noise\<bar> \<le> 2"
  shows "jitterChannel noise c = k"
proof -
  have "(255 + \<bar>noise\<bar>) / 2 ^ 53 \<le> 257 / 2 ^ 53"
    using assms by (intro divide_right_mono) simp_all
  with byte_sum_rounded [of c noise] tiny_le
  have "\<bar>round64 (real (unat c) + noise) - real (unat c)\<bar> \<le> \<bar>noise\<bar> + 257 / 2 ^ 53 + 1 / 2 ^ 53"
    by linarith
  moreover have "\<bar>round64 (real (unat c) + noise) - (real (unat c) + noise)\<bar>
      \<le> 257 / 2 ^ 53 + 1 / 2 ^ 53"
  proof -
    have c255: "real (unat c) \<le> 255" using unat_word8_le [of c] by linarith
    have c0: "0 \<le> real (unat c)" by (rule of_nat_0_le_iff)
    have "\<bar>real (unat c) + noise\<bar> \<le> 257" using c255 c0 assms by linarith
    then have "\<bar>real (unat c) + noise\<bar> / 2 ^ 53 \<le> 257 / 2 ^ 53"
      by (rule divide_right_mono) simp
    with round64_relative [of "real (unat c) + noise"] tiny_le show ?thesis by linarith
  qed
  ultimately have "\<bar>round64 (real (unat c) + noise) - real (unat k)\<bar>
      \<le> 7 / 16 + 257 / 2 ^ 53 + 1 / 2 ^ 53"
    using assms by linarith
  also have "\<dots> < 1 / 2" by simp
  finally show ?thesis unfolding jitterChannel_def by (rule storedByte_same)
qed

lemma alphaStamp_range:
  assumes "0 \<le> r" "r < 1"
  shows "alphaStamp r = (if r < 1 / 2 then 254 else 255)"
proof (cases "r < 1 / 2")
  case True
  then have "mathRound r = 0" using assms by (simp add: mathRound_def floor_eq_iff)
  then show ?thesis using True by (simp add: alphaStamp_def toUint8Clamped_def)
next
  case False
  then have "mathRound r = 1" using assms by (simp add: mathRound_def floor_eq_iff)
  then show ?thesis using False by (simp add: alphaStamp_def toUint8Clamped_def)
qed

text \<open>
  The sum is rounded to a double before it is stored. With the noise \<open>1/2 - 2\<^sup>-\<^sup>4\<^sup>6\<close>
  (about 0.4999999999999858), the sum with the byte 129 rounds to the double 129.5,
  which is stored as 130, while the sum with the byte 1 is exact and is stored as 1.
\<close>

lemma rounded_sum_example:
  "jitterChannel (1 / 2 - 1 / 2 ^ 46) 129 = 130" "jitterChannel (1 / 2 - 1 / 2 ^ 46) 1 = 1"
proof -
  have a: "round64 (129 + (1 / 2 - 1 / 2 ^ 46))
      = real_of_int (roundTiesToEven ((129 + (1 / 2 - 1 / 2 ^ 46)) / 2 powi (7 - 52))) * 2 powi (7 - 52)"
    by (rule round64_in_binade) simp_all
  have b: "round64 (1 + (1 / 2 - 1 / 2 ^ 46))
      = real_of_int (roundTiesToEven ((1 + (1 / 2 - 1 / 2 ^ 46)) / 2 powi (0 - 52))) * 2 powi (0 - 52)"
    by (rule round64_in_binade) simp_all
  have a': "round64 (129 + (1 / 2 - 1 / 2 ^ 46)) = 259 / 2"
    unfolding a by (simp add: roundTiesToEven_def power_int_minus_divide)
  have b': "round64 (1 + (1 / 2 - 1 / 2 ^ 46)) = 3 / 2 - 1 / 2 ^ 46"
    unfolding b by (simp add: roundTiesToEven_def power_int_minus_divide)
  have u: "real (unat (129 :: 8 word)) = 129" "real (unat (1 :: 8 word)) = 1" by simp_all
  show "jitterChannel (1 / 2 - 1 / 2 ^ 46) 129 = 130"
    unfolding jitterChannel_def u a' by (simp add: toUint8Clamped_def)
  show "jitterChannel (1 / 2 - 1 / 2 ^ 46) 1 = 1"
    unfolding jitterChannel_def u b' by (simp add: toUint8Clamped_def)
qed

section \<open>The noise loop and the pipeline\<close>

lemma noiseLoop_length: "length (fst (noiseLoop e lvl i ps d)) = length ps"
  by (induction ps arbitrary: i d) (auto simp: Let_def)

lemma noiseLoop_nth:
  "j < length ps \<Longrightarrow>
   \<exists>k. fst (noiseLoop e lvl i ps d) ! j =
     (case ps ! j of (r, g, b, a) \<Rightarrow>
        (jitterChannel (noiseOf lvl (mathRandom e k)) r,
         jitterChannel (noiseOf lvl (mathRandom e k)) g,
         jitterChannel (noiseOf lvl (mathRandom e k)) b,
         if (i + 4 * j) mod 100 = 0 then alphaStamp (mathRandom e (Suc k)) else a))"
proof (induction ps arbitrary: i j d)
  case Nil
  then show ?case by simp
next
  case (Cons p ps)
  obtain r g b a where p: "p = (r, g, b, a)" by (cases p)
  show ?case
  proof (cases j)
    case 0
    then show ?thesis by (auto simp: p Let_def intro!: exI [of _ d])
  next
    case (Suc j')
    with Cons.prems have "j' < length ps" by simp
    from Cons.IH [OF this, of "i + 4" "if i mod 100 = 0 then Suc (Suc d) else Suc d"]
    obtain k where "fst (noiseLoop e lvl (i + 4) ps (if i mod 100 = 0 then Suc (Suc d) else Suc d)) ! j' =
     (case ps ! j' of (r, g, b, a) \<Rightarrow>
        (jitterChannel (noiseOf lvl (mathRandom e k)) r,
         jitterChannel (noiseOf lvl (mathRandom e k)) g,
         jitterChannel (noiseOf lvl (mathRandom e k)) b,
         if (i + 4 + 4 * j') mod 100 = 0 then alphaStamp (mathRandom e (Suc k)) else a))"
      by blast
    then show ?thesis
      by (intro exI [of _ k]) (simp add: p Suc Let_def add.assoc)
  qed
qed

lemma tiny_le': "(1::real) / 2 ^ 1074 \<le> 1 / 2 ^ 53"
  by (intro divide_left_mono power_increasing mult_pos_pos zero_less_power) simp_all

lemma noiseOf_bound:
  assumes "0 \<le> r" "r < 1"
  shows "\<bar>noiseOf lvl r\<bar> \<le> \<bar>lvl\<bar> * (15 / 2) * (1 + 1 / 2 ^ 51) + 1 / 2 ^ 1074"
proof -
  define U :: real where "U = 1 + 1 / 2 ^ 53"
  define E :: real where "E = 1 / 2 ^ 1075"
  define a where "a = round64 (r - 1 / 2)"
  define b where "b = round64 (lvl * 15)"
  have U: "0 \<le> U" "U / 2 \<le> 1" "U * U \<le> 1 + 1 / 2 ^ 51"
    by (simp_all add: U_def)
  have E: "0 \<le> E" "E + E = 1 / 2 ^ 1074"
    by (simp_all add: E_def)
  have "\<bar>r - 1 / 2\<bar> \<le> 1 / 2" using assms by linarith
  then have a: "\<bar>a\<bar> \<le> 1 / 2" unfolding a_def by (rule round64_half)
  have "\<bar>b - lvl * 15\<bar> \<le> \<bar>lvl * 15\<bar> / 2 ^ 53 + E"
    unfolding b_def E_def by (rule round64_relative)
  then have "\<bar>b\<bar> \<le> \<bar>lvl * 15\<bar> + \<bar>lvl * 15\<bar> / 2 ^ 53 + E" by linarith
  also have "\<bar>lvl * 15\<bar> + \<bar>lvl * 15\<bar> / 2 ^ 53 = \<bar>lvl\<bar> * 15 * U"
    by (simp add: U_def abs_mult algebra_simps)
  finally have b: "\<bar>b\<bar> \<le> \<bar>lvl\<bar> * 15 * U + E" .
  have "\<bar>a * b\<bar> = \<bar>a\<bar> * \<bar>b\<bar>" by (rule abs_mult)
  also have "\<dots> \<le> 1 / 2 * \<bar>b\<bar>" using a by (rule mult_right_mono) simp
  finally have ab: "\<bar>a * b\<bar> \<le> \<bar>b\<bar> / 2" by simp
  have "\<bar>round64 (a * b) - a * b\<bar> \<le> \<bar>a * b\<bar> / 2 ^ 53 + E"
    unfolding E_def by (rule round64_relative)
  then have "\<bar>round64 (a * b)\<bar> \<le> \<bar>a * b\<bar> + \<bar>a * b\<bar> / 2 ^ 53 + E" by linarith
  also have "\<bar>a * b\<bar> + \<bar>a * b\<bar> / 2 ^ 53 = \<bar>a * b\<bar> * U"
    by (simp add: U_def algebra_simps)
  finally have n: "\<bar>round64 (a * b)\<bar> \<le> \<bar>a * b\<bar> * U + E" .
  have "\<bar>a * b\<bar> * U \<le> \<bar>b\<bar> / 2 * U"
    using ab U(1) by (rule mult_right_mono)
  also have "\<dots> \<le> (\<bar>lvl\<bar> * 15 * U + E) / 2 * U"
    using b U(1) by (intro mult_right_mono divide_right_mono) simp_all
  also have "\<dots> = \<bar>lvl\<bar> * (15 / 2) * (U * U) + E * (U / 2)"
    by (simp add: algebra_simps)
  also have "\<dots> \<le> \<bar>lvl\<bar> * (15 / 2) * (1 + 1 / 2 ^ 51) + E * 1"
    using U E(1) by (intro add_mono mult_left_mono) simp_all
  finally have "\<bar>a * b\<bar> * U \<le> \<bar>lvl\<bar> * (15 / 2) * (1 + 1 / 2 ^ 51) + E" by simp
  with n have "\<bar>round64 (a * b)\<bar> \<le> \<bar>lvl\<bar> * (15 / 2) * (1 + 1 / 2 ^ 51) + (E + E)"
    by linarith
  then show ?thesis unfolding E(2) noiseOf_def a_def b_def .
qed

lemma default_level: "\<bar>round64 (5 / 100)\<bar> \<le> 51 / 1000"
proof -
  have "\<bar>round64 (5 / 100) - 5 / 100\<bar> \<le> \<bar>5 / 100\<bar> / 2 ^ 53 + 1 / 2 ^ 1075"
    by (rule round64_relative)
  moreover have "\<bar>5 / 100 :: real\<bar> / 2 ^ 53 \<le> 1 / 2 ^ 53" by simp
  ultimately have "\<bar>round64 (5 / 100)\<bar> \<le> 5 / 100 + 1 / 2 ^ 53 + 1 / 2 ^ 53"
    using tiny_le by linarith
  also have "\<dots> \<le> 51 / 1000" by simp
  finally show ?thesis .
qed

lemma noiseOf_small:
  assumes "0 \<le> r" "r < 1" "\<bar>lvl\<bar> \<le> 51 / 1000"
  shows "\<bar>noiseOf lvl r\<bar> \<le> 7 / 16"
proof -
  have "\<bar>lvl\<bar> * (15 / 2) * (1 + 1 / 2 ^ 51) \<le> 51 / 1000 * (15 / 2) * (1 + 1 / 2 ^ 51)"
    using assms(3) by (intro mult_right_mono) simp_all
  also have "\<dots> \<le> 2 / 5" by simp
  finally have "\<bar>lvl\<bar> * (15 / 2) * (1 + 1 / 2 ^ 51) \<le> 2 / 5" .
  with noiseOf_bound [OF assms(1,2), of lvl] tiny_le'
  have "\<bar>noiseOf lvl r\<bar> \<le> 2 / 5 + 1 / 2 ^ 53" by linarith
  also have "\<dots> \<le> 7 / 16" by simp
  finally show ?thesis .
qed

lemma stamp_every_25: "(4 * j) mod 100 = 0 \<longleftrightarrow> j mod 25 = (0::nat)"
  by presburger

lemma generateVariant_completes:
  assumes "getContext2d e" "canvasFault e img opts = None" "idbCompletes e (idbOps w)"
  shows "generateVariant e img name ident opts w =
     (Inr (variantOf e img name ident opts w),
      w\<lparr>draws := drawsAfterNoise e img opts (draws w) + 7, ticks := Suc (ticks w),
        records := store_put (variantOf e img name ident opts w) (records w),
        idbOps := Suc (idbOps w)\<rparr>)"
  using assms by (simp add: generateVariant_def saveVariantToDB_def Let_def)

lemma generateVariant_rejects:
  assumes "getContext2d e" "canvasFault e img opts = None" "\<not> idbCompletes e (idbOps w)"
  shows "generateVariant e img name ident opts w =
     (Inl StoreRejected,
      w\<lparr>draws := drawsAfterNoise e img opts (draws w) + 7, ticks := Suc (ticks w),
        idbOps := Suc (idbOps w)\<rparr>)"
  using assms by (simp add: generateVariant_def saveVariantToDB_def Let_def)

lemma generateVariant_faults:
  assumes "getContext2d e" "canvasFault e img opts = Some err"
  shows "generateVariant e img name ident opts w
     = (Inl err, w\<lparr>draws := drawsAfterPaint opts (draws w)\<rparr>)"
  using assms by (simp add: generateVariant_def)

lemma generateVariant_returns:
  assumes "fst (generateVariant e img name ident opts w) = Inr v"
  shows "getContext2d e \<and> canvasFault e img opts = None \<and> idbCompletes e (idbOps w) \<and>
         v = variantOf e img name ident opts w"
  using assms
  by (auto simp: generateVariant_def saveVariantToDB_def Let_def split: if_splits option.splits)

lemma store_put_member: "(variantId v, v) \<in> set (store_put v s)"
  by (induction s) auto

lemma noiseStage_nth:
  assumes j: "j < length data" and p: "data ! j = (r, g, b, a)"
  shows "\<exists>k. fst (noiseStage e opts data d) ! j =
       (jitterChannel (noiseOf (noiseLevelOf opts) (mathRandom e k)) r,
        jitterChannel (noiseOf (noiseLevelOf opts) (mathRandom e k)) g,
        jitterChannel (noiseOf (noiseLevelOf opts) (mathRandom e k)) b,
        if j mod 25 = 0 then alphaStamp (mathRandom e (Suc k)) else a)"
proof -
  from noiseLoop_nth [OF j, of e "noiseLevelOf opts" 0 d]
  obtain k where "fst (noiseLoop e (noiseLevelOf opts) 0 data d) ! j =
     (case data ! j of (r, g, b, a) \<Rightarrow>
        (jitterChannel (noiseOf (noiseLevelOf opts) (mathRandom e k)) r,
         jitterChannel (noiseOf (noiseLevelOf opts) (mathRandom e k)) g,
         jitterChannel (noiseOf (noiseLevelOf opts) (mathRandom e k)) b,
         if (0 + 4 * j) mod 100 = 0 then alphaStamp (mathRandom e (Suc k)) else a))"
    by blast
  then have "fst (noiseStage e opts data d) ! j =
       (jitterChannel (noiseOf (noiseLevelOf opts) (mathRandom e k)) r,
        jitterChannel (noiseOf (noiseLevelOf opts) (mathRandom e k)) g,
        jitterChannel (noiseOf (noiseLevelOf opts) (mathRandom e k)) b,
        if j mod 25 = 0 then alphaStamp (mathRandom e (Suc k)) else a)"
    unfolding noiseStage_def p prod.case add_0 stamp_every_25 .
  then show ?thesis ..
qed




text \<open>
  C1 (as the code has it). With \<open>textureIntensity = 0\<close> the noise level falls back to
  \<open>0.05\<close> and the stage still runs: under random draws in \<open>[0, 1)\<close> the red, green and
  blue bytes of every pixel come out unchanged (the noise is below one half and is
  rounded away), the alpha byte of every 25th pixel becomes 254 or 255, and every
  other alpha byte is kept.
\<close>

theorem zero_intensity_noise_stage:
  assumes rnd: "\<forall>k. 0 \<le> mathRandom e k \<and> mathRandom e k < 1"
    and zero: "optTextureIntensity opts = Some 0"
    and j: "j < length data"
  shows "length (fst (noiseStage e opts data d)) = length data \<and>
      (case (data ! j, fst (noiseStage e opts data d) ! j) of
         ((r, g, b, a), (r', g', b', a')) \<Rightarrow>
           r' = r \<and> g' = g \<and> b' = b \<and>
           (if j mod 25 = 0 then a' = 254 \<or> a' = 255 else a' = a))"
proof -
  obtain r g b a where p: "data ! j = (r, g, b, a)" by (cases "data ! j")
  have lvl: "noiseLevelOf opts = round64 (5 / 100)" using zero by (simp add: noiseLevelOf_def)
  from noiseStage_nth [OF j p, of e opts d]
  obtain k where out: "fst (noiseStage e opts data d) ! j =
       (jitterChannel (noiseOf (noiseLevelOf opts) (mathRandom e k)) r,
        jitterChannel (noiseOf (noiseLevelOf opts) (mathRandom e k)) g,
        jitterChannel (noiseOf (noiseLevelOf opts) (mathRandom e k)) b,
        if j mod 25 = 0 then alphaStamp (mathRandom e (Suc k)) else a)"
    by blast
  let ?n = "noiseOf (noiseLevelOf opts) (mathRandom e k)"
  from rnd have rk: "0 \<le> mathRandom e k" "mathRandom e k < 1"
    and rk': "0 \<le> mathRandom e (Suc k)" "mathRandom e (Suc k) < 1"
    by blast+
  have "\<bar>?n\<bar> \<le> 7 / 16"
    unfolding lvl using rk default_level by (rule noiseOf_small)
  then have same: "jitterChannel ?n c = c" for c
    by (rule jitterChannel_small)
  have al: "alphaStamp (mathRandom e (Suc k)) = 254 \<or> alphaStamp (mathRandom e (Suc k)) = 255"
    unfolding alphaStamp_range [OF rk'] by (rule if_split [THEN iffD2]) blast
  have len: "length (fst (noiseStage e opts data d)) = length data"
    unfolding noiseStage_def by (rule noiseLoop_length)
  have px: "(case (data ! j, fst (noiseStage e opts data d) ! j) of
         ((r, g, b, a), (r', g', b', a')) \<Rightarrow>
           r' = r \<and> g' = g \<and> b' = b \<and>
           (if j mod 25 = 0 then a' = 254 \<or> a' = 255 else a' = a))"
    unfolding p out prod.case same
    using al
    by (cases "j mod 25 = 0") (simp_all only: if_True if_False simp_thms)
  from len px show ?thesis by (rule conjI)
qed

text \<open>The theorem at a one-pixel array in the concrete environment.\<close>

theorem zero_intensity_noise_stage_witness:
  "(\<forall>k. 0 \<le> mathRandom demoEnv k \<and> mathRandom demoEnv k < 1) \<and>
   optTextureIntensity demoOptions = Some 0 \<and>
   (0::nat) < length [(10, 20, 30, 255) :: pixel] \<and>
   length (fst (noiseStage demoEnv demoOptions [(10, 20, 30, 255)] 0)) = 1"
proof -
  have rnd: "\<forall>k. 0 \<le> mathRandom demoEnv k \<and> mathRandom demoEnv k < 1"
    by (simp add: demoEnv_def)
  have zero: "optTextureIntensity demoOptions = Some 0"
    by (simp add: demoOptions_def)
  have j: "(0::nat) < length [(10, 20, 30, 255) :: pixel]" by simp
  from zero_intensity_noise_stage [OF rnd zero j, of 0]
  have "length (fst (noiseStage demoEnv demoOptions [(10, 20, 30, 255)] 0))
          = length [(10, 20, 30, 255) :: pixel]"
    by (rule conjunct1)
  with rnd zero j show ?thesis by simp
qed

lemma demo_noise_small:
  "\<bar>noiseOf (noiseLevelOf demoOptions) 0\<bar> \<le> 7 / 16"
  "\<bar>noiseOf (noiseLevelOf plainOptions) 0\<bar> \<le> 7 / 16"
proof -
  have "noiseLevelOf demoOptions = round64 (5 / 100)"
    by (simp add: noiseLevelOf_def demoOptions_def)
  then show "\<bar>noiseOf (noiseLevelOf demoOptions) 0\<bar> \<le> 7 / 16"
    using default_level by (intro noiseOf_small) simp_all
  have "noiseLevelOf plainOptions = 1 / 32"
    by (simp add: noiseLevelOf_def plainOptions_def)
  then show "\<bar>noiseOf (noiseLevelOf plainOptions) 0\<bar> \<le> 7 / 16"
    by (intro noiseOf_small) simp_all
qed

lemma demo_canvas_size:
  assumes "scaleOf opts = 1"
  shows "sizedWidth demoImage opts = 2" "sizedHeight demoImage opts = 1"
proof -
  have two: "round64 2 = 2" using round64_of_int [of 2] by simp
  have one: "round64 1 = 1" using round64_of_int [of 1] by simp
  show "sizedWidth demoImage opts = 2" "sizedHeight demoImage opts = 1"
    by (simp_all add: sizedWidth_def sizedHeight_def assms canvasDimension_def
        toUnsignedLong_def demoImage_def two one)
qed

lemma canvasFault_none:
  assumes "sizedWidth img opts \<noteq> 0" "sizedHeight img opts \<noteq> 0"
    and "imageDataReadable e img (sizedWidth img opts) (sizedHeight img opts)"
  shows "canvasFault e img opts = None"
  using assms by (simp add: canvasFault_def)

lemma demo_fault_free:
  assumes "scaleOf opts = 1"
  shows "canvasFault demoEnv demoImage opts = None"
    and "canvasFault failingEnv demoImage opts = None"
  by (simp_all add: canvasFault_def demo_canvas_size [OF assms] demoEnv_def failingEnv_def)

lemma demo_unscaled:
  "scaleOf demoOptions = 1" "scaleOf plainOptions = 1"
  "scaleOf (demoOptions\<lparr>optOpacity := Some 5\<rparr>) = 1"
  "scaleOf (optionsOfState demoState) = 1"
  by (simp_all add: scaleOf_def demoOptions_def plainOptions_def optionsOfState_def
      demoState_def)

text \<open>
  C1 as stated fails: with \<open>textureIntensity = 0\<close> and a random draw of 0, the stage
  turns the opaque pixel \<open>(10, 20, 30, 255)\<close> into \<open>(10, 20, 30, 254)\<close>.
\<close>

theorem zero_intensity_changes_alpha:
  "optTextureIntensity demoOptions = Some 0 \<and>
   fst (noiseStage demoEnv demoOptions [(10, 20, 30, 255)] 0) = [(10, 20, 30, 254)]"
proof -
  have rnd: "mathRandom demoEnv k = 0" for k
    by (simp add: demoEnv_def)
  have same: "jitterChannel (noiseOf (noiseLevelOf demoOptions) 0) c = c" for c
    using demo_noise_small(1) by (rule jitterChannel_small)
  have stamp: "alphaStamp 0 = 254"
    using alphaStamp_range [of 0] by simp
  have "fst (noiseStage demoEnv demoOptions [(10, 20, 30, 255)] 0) = [(10, 20, 30, 254)]"
    by (simp add: noiseStage_def rnd same stamp Let_def)
  then show ?thesis by (simp add: demoOptions_def)
qed


section \<open>The returned variant\<close>


lemma config_variantOf:
  "config (variantOf e img name ident opts w)
     = overlayConfigOf e img name opts (drawsAfterNoise e img opts (draws w))"
  by (simp add: variantOf_def Let_def)

lemma canvasDimension_floor:
  assumes "0 \<le> x" "x < 2 ^ 31"
  shows "canvasDimension dflt x = nat \<lfloor>x\<rfloor>"
proof -
  have lo: "0 \<le> \<lfloor>x\<rfloor>" using assms by simp
  have "\<lfloor>x\<rfloor> < 2 ^ 31" using assms by (simp add: floor_less_iff)
  then have hi: "\<lfloor>x\<rfloor> \<le> 2147483647" by simp
  with lo have "\<lfloor>x\<rfloor> mod 2 ^ 32 = \<lfloor>x\<rfloor>" by simp
  then have "toUnsignedLong x = nat \<lfloor>x\<rfloor>"
    using assms by (simp add: toUnsignedLong_def)
  moreover from lo hi have "nat \<lfloor>x\<rfloor> \<le> 2147483647" by linarith
  ultimately show ?thesis by (simp add: canvasDimension_def)
qed

text \<open>
  C7. A variant that \<open>generateVariant\<close> returns has status \<open>pending\<close> and the id it
  was called with, and the put of the store has completed before the return: the
  world \<open>generateVariant\<close> leaves holds the variant under its id.
\<close>

theorem returned_variant_pending_and_persisted:
  assumes "fst (generateVariant e img name ident opts w) = Inr v"
  shows "status v = Pending \<and> variantId v = ident \<and> idbCompletes e (idbOps w) \<and>
         map_of (records (snd (generateVariant e img name ident opts w))) ident = Some v \<and>
         v \<in> set (store_getAll (records (snd (generateVariant e img name ident opts w))))"
proof -
  from generateVariant_returns [OF assms]
  have ctx: "getContext2d e" and ok: "canvasFault e img opts = None"
    and put: "idbCompletes e (idbOps w)"
    and v: "v = variantOf e img name ident opts w"
    by blast+
  have id: "variantId v = ident" and st: "status v = Pending"
    by (simp_all add: v variantOf_def Let_def)
  have rec: "records (snd (generateVariant e img name ident opts w)) = store_put v (records w)"
    by (simp add: generateVariant_completes [OF ctx ok put] v)
  have "map_of (store_put v (records w)) ident = Some v"
    by (simp add: map_of_store_put id)
  moreover have "v \<in> set (store_getAll (store_put v (records w)))"
    using store_put_member [of v "records w"] by (force simp: store_getAll_def)
  ultimately show ?thesis using id st put rec by simp
qed

text \<open>
  A call that returns, in the concrete environment.
\<close>

theorem returned_variant_pending_and_persisted_witness:
  "fst (generateVariant demoEnv demoImage ''Kurti'' ''cloaked-1700000000000-0'' demoOptions emptyWorld)
     = Inr (variantOf demoEnv demoImage ''Kurti'' ''cloaked-1700000000000-0'' demoOptions emptyWorld) \<and>
   status (variantOf demoEnv demoImage ''Kurti'' ''cloaked-1700000000000-0'' demoOptions emptyWorld)
     = Pending \<and>
   map_of (records (snd (generateVariant demoEnv demoImage ''Kurti'' ''cloaked-1700000000000-0''
                           demoOptions emptyWorld))) ''cloaked-1700000000000-0''
     = Some (variantOf demoEnv demoImage ''Kurti'' ''cloaked-1700000000000-0'' demoOptions emptyWorld)"
proof -
  have ctx: "getContext2d demoEnv" and put: "idbCompletes demoEnv (idbOps emptyWorld)"
    by (simp_all add: demoEnv_def)
  note ok = demo_fault_free(1) [OF demo_unscaled(1)]
  have run: "fst (generateVariant demoEnv demoImage ''Kurti'' ''cloaked-1700000000000-0'' demoOptions
                    emptyWorld)
     = Inr (variantOf demoEnv demoImage ''Kurti'' ''cloaked-1700000000000-0'' demoOptions emptyWorld)"
    by (simp add: generateVariant_completes [OF ctx ok put])
  from returned_variant_pending_and_persisted [OF run] run show ?thesis by blast
qed

text \<open>
  C10. For every variant that \<open>generateVariant\<close> returns, \<open>blobUrl\<close> is set and equals
  \<open>dataUrl\<close>.
\<close>

theorem blobUrl_is_dataUrl:
  assumes "fst (generateVariant e img name ident opts w) = Inr v"
  shows "blobUrl v = Some (dataUrl v)"
proof -
  from generateVariant_returns [OF assms]
  have "v = variantOf e img name ident opts w" by blast
  then show ?thesis by (simp add: variantOf_def Let_def)
qed

text \<open>
  A call that returns, in the concrete environment.
\<close>

theorem blobUrl_is_dataUrl_witness:
  "fst (generateVariant demoEnv demoImage ''Kurti'' ''cloaked-1700000000000-1'' plainOptions emptyWorld)
     = Inr (variantOf demoEnv demoImage ''Kurti'' ''cloaked-1700000000000-1'' plainOptions emptyWorld) \<and>
   blobUrl (variantOf demoEnv demoImage ''Kurti'' ''cloaked-1700000000000-1'' plainOptions emptyWorld)
     = Some (dataUrl (variantOf demoEnv demoImage ''Kurti'' ''cloaked-1700000000000-1'' plainOptions
                        emptyWorld))"
proof -
  have ctx: "getContext2d demoEnv" and put: "idbCompletes demoEnv (idbOps emptyWorld)"
    by (simp_all add: demoEnv_def)
  note ok = demo_fault_free(1) [OF demo_unscaled(2)]
  have run: "fst (generateVariant demoEnv demoImage ''Kurti'' ''cloaked-1700000000000-1'' plainOptions
                    emptyWorld)
     = Inr (variantOf demoEnv demoImage ''Kurti'' ''cloaked-1700000000000-1'' plainOptions emptyWorld)"
    by (simp add: generateVariant_completes [OF ctx ok put])
  from blobUrl_is_dataUrl [OF run] run show ?thesis by blast
qed

lemma sized_double:
  assumes "1 \<le> real n * f" "real n * f \<le> 2147483647"
  shows "canvasDimension dflt (round64 (real n * f)) = nat \<lfloor>round64 (real n * f)\<rfloor>"
    and "canvasDimension dflt (round64 (real n * f)) \<noteq> 0"
proof -
  let ?x = "real n * f"
  have small: "\<bar>?x\<bar> < 2 ^ 53" using assms by simp
  have "real_of_int 1 \<le> round64 ?x"
    using small by (rule round64_ge_int) (simp add: assms)
  then have lo: "1 \<le> round64 ?x" by simp
  have "round64 ?x \<le> real_of_int 2147483647"
    using small by (rule round64_le_int) (simp add: assms)
  then have hi: "round64 ?x < 2 ^ 31" by simp
  from lo have "0 \<le> round64 ?x" by simp
  then show eq: "canvasDimension dflt (round64 ?x) = nat \<lfloor>round64 ?x\<rfloor>"
    using hi by (rule canvasDimension_floor)
  from lo have "1 \<le> \<lfloor>round64 ?x\<rfloor>" by simp
  then show "canvasDimension dflt (round64 ?x) \<noteq> 0" unfolding eq by simp
qed

text \<open>
  C6. With a drawing context, a readable canvas raster, a completing store, a source
  image of at least one pixel each way and a factor of at least 1 (1 when
  \<open>upscaleFactor\<close> is absent), the sizes staying within \<open>2\<^sup>3\<^sup>1 - 1\<close>,
  \<open>generateVariant\<close> returns a variant whose data URL encodes a canvas of width
  \<open>\<lfloor>width \<otimes> factor\<rfloor>\<close> and height \<open>\<lfloor>height \<otimes> factor\<rfloor>\<close>, where \<open>\<otimes>\<close> is the
  product of doubles (the exact product rounded to the nearest double). The rounding
  rule is truncation, that of the \<open>unsigned long\<close> attributes of the canvas.
\<close>

theorem variant_raster_dimensions:
  assumes ctx: "getContext2d e" and put: "idbCompletes e (idbOps w)"
    and readable: "imageDataReadable e img (sizedWidth img opts) (sizedHeight img opts)"
    and valid: "1 \<le> requestedFactor opts"
    and nonempty: "1 \<le> imgWidth img" "1 \<le> imgHeight img"
    and wide: "real (imgWidth img) * requestedFactor opts \<le> 2147483647"
    and high: "real (imgHeight img) * requestedFactor opts \<le> 2147483647"
  shows "\<exists>v q. fst (generateVariant e img name ident opts w) = Inr v \<and>
     dataUrl v = toDataURL e (finalCanvas e img name opts (draws w)) (formatOf opts) q \<and>
     canvasWidth (finalCanvas e img name opts (draws w))
       = nat \<lfloor>round64 (real (imgWidth img) * requestedFactor opts)\<rfloor> \<and>
     canvasHeight (finalCanvas e img name opts (draws w))
       = nat \<lfloor>round64 (real (imgHeight img) * requestedFactor opts)\<rfloor>"
proof -
  have sc: "scaleOf opts = requestedFactor opts"
    using valid by (auto simp: scaleOf_def requestedFactor_def split: option.splits)
  have "1 * 1 \<le> real (imgWidth img) * requestedFactor opts"
    using nonempty(1) valid by (intro mult_mono) simp_all
  then have w1: "1 \<le> real (imgWidth img) * requestedFactor opts" by simp
  have "1 * 1 \<le> real (imgHeight img) * requestedFactor opts"
    using nonempty(2) valid by (intro mult_mono) simp_all
  then have h1: "1 \<le> real (imgHeight img) * requestedFactor opts" by simp
  have sw: "sizedWidth img opts = nat \<lfloor>round64 (real (imgWidth img) * requestedFactor opts)\<rfloor>"
    and sw0: "sizedWidth img opts \<noteq> 0"
    unfolding sizedWidth_def sc by (rule sized_double [OF w1 wide])+
  have sh: "sizedHeight img opts = nat \<lfloor>round64 (real (imgHeight img) * requestedFactor opts)\<rfloor>"
    and sh0: "sizedHeight img opts \<noteq> 0"
    unfolding sizedHeight_def sc by (rule sized_double [OF h1 high])+
  have ok: "canvasFault e img opts = None"
    using sw0 sh0 readable by (rule canvasFault_none)
  have cw: "canvasWidth (finalCanvas e img name opts (draws w))
       = nat \<lfloor>round64 (real (imgWidth img) * requestedFactor opts)\<rfloor>"
    by (simp add: finalCanvas_def sw)
  have ch: "canvasHeight (finalCanvas e img name opts (draws w))
       = nat \<lfloor>round64 (real (imgHeight img) * requestedFactor opts)\<rfloor>"
    by (simp add: finalCanvas_def sh)
  let ?v = "variantOf e img name ident opts w"
  have run: "fst (generateVariant e img name ident opts w) = Inr ?v"
    by (simp add: generateVariant_completes [OF ctx ok put])
  have url: "dataUrl ?v = toDataURL e (finalCanvas e img name opts (draws w)) (formatOf opts)
      (qualityOf e (drawsAfterNoise e img opts (draws w) + 6))"
    by (simp add: variantOf_def Let_def)
  from run url cw ch show ?thesis by (intro exI conjI)
qed

text \<open>
  A source image of 800 by 600 pixels at the factor 1.2 (the double nearest to it)
  gives a canvas of 960 by 720: the exact products lie just below 960 and 720, and
  their doubles are 960 and 720.
\<close>

theorem variant_raster_dimensions_witness:
  "getContext2d demoEnv \<and> idbCompletes demoEnv (idbOps emptyWorld) \<and>
   imageDataReadable demoEnv photoImage
     (sizedWidth photoImage (demoOptions\<lparr>optUpscaleFactor := Some double_1_2\<rparr>))
     (sizedHeight photoImage (demoOptions\<lparr>optUpscaleFactor := Some double_1_2\<rparr>)) \<and>
   1 \<le> requestedFactor (demoOptions\<lparr>optUpscaleFactor := Some double_1_2\<rparr>) \<and>
   1 \<le> imgWidth photoImage \<and> 1 \<le> imgHeight photoImage \<and>
   real (imgWidth photoImage) * requestedFactor (demoOptions\<lparr>optUpscaleFactor := Some double_1_2\<rparr>)
     \<le> 2147483647 \<and>
   real (imgHeight photoImage) * requestedFactor (demoOptions\<lparr>optUpscaleFactor := Some double_1_2\<rparr>)
     \<le> 2147483647 \<and>
   real (imgWidth photoImage) * requestedFactor (demoOptions\<lparr>optUpscaleFactor := Some double_1_2\<rparr>)
     < 960 \<and>
   canvasWidth (finalCanvas demoEnv photoImage ''Kurti''
                  (demoOptions\<lparr>optUpscaleFactor := Some double_1_2\<rparr>) (draws emptyWorld)) = 960 \<and>
   canvasHeight (finalCanvas demoEnv photoImage ''Kurti''
                  (demoOptions\<lparr>optUpscaleFactor := Some double_1_2\<rparr>) (draws emptyWorld)) = 720"
proof -
  let ?opts = "demoOptions\<lparr>optUpscaleFactor := Some double_1_2\<rparr>"
  have ctx: "getContext2d demoEnv" and put: "idbCompletes demoEnv (idbOps emptyWorld)"
    and readable: "imageDataReadable demoEnv photoImage
       (sizedWidth photoImage ?opts) (sizedHeight photoImage ?opts)"
    by (simp_all add: demoEnv_def)
  have f: "requestedFactor ?opts = double_1_2"
    by (simp add: requestedFactor_def)
  have wd: "real (imgWidth photoImage) = 800" and hd: "real (imgHeight photoImage) = 600"
    by (simp_all add: photoImage_def)
  have valid: "1 \<le> requestedFactor ?opts"
    and wide: "real (imgWidth photoImage) * requestedFactor ?opts \<le> 2147483647"
    and high: "real (imgHeight photoImage) * requestedFactor ?opts \<le> 2147483647"
    and below: "real (imgWidth photoImage) * requestedFactor ?opts < 960"
    unfolding f wd hd by (simp_all add: double_1_2_def)
  have nonempty: "1 \<le> imgWidth photoImage" "1 \<le> imgHeight photoImage"
    by (simp_all add: photoImage_def)
  from variant_raster_dimensions [OF ctx put readable valid nonempty wide high,
      of "''Kurti''" "''cloaked-1700000000000-0''"]
  have "canvasWidth (finalCanvas demoEnv photoImage ''Kurti'' ?opts (draws emptyWorld))
       = nat \<lfloor>round64 (real (imgWidth photoImage) * requestedFactor ?opts)\<rfloor>"
    and "canvasHeight (finalCanvas demoEnv photoImage ''Kurti'' ?opts (draws emptyWorld))
       = nat \<lfloor>round64 (real (imgHeight photoImage) * requestedFactor ?opts)\<rfloor>"
    by blast+
  then have "canvasWidth (finalCanvas demoEnv photoImage ''Kurti'' ?opts (draws emptyWorld)) = 960"
    and "canvasHeight (finalCanvas demoEnv photoImage ''Kurti'' ?opts (draws emptyWorld)) = 720"
    unfolding f wd hd sized_photo by simp_all
  with ctx put readable valid nonempty wide high below show ?thesis by blast
qed

text \<open>
  C9 (as the code has it). The opacity of the resolved configuration is the caller's
  value when there is one, unchanged, so that it lies in \<open>[0, 1]\<close> exactly when the
  caller's value does; it is 0.03, which lies in \<open>(0, 0.1]\<close>, when the caller gives none.
\<close>

theorem resolved_opacity:
  assumes "fst (generateVariant e img name ident opts w) = Inr v"
  shows "opacity (config v) = Some (case optOpacity opts of None \<Rightarrow> 3 / 100 | Some a \<Rightarrow> a) \<and>
         (case optOpacity opts of
            None \<Rightarrow> (\<exists>a. opacity (config v) = Some a \<and> 0 < a \<and> a \<le> 1 / 10)
          | Some b \<Rightarrow> (\<exists>a. opacity (config v) = Some a \<and> 0 \<le> a \<and> a \<le> 1) = (0 \<le> b \<and> b \<le> 1))"
proof -
  from generateVariant_returns [OF assms]
  have "v = variantOf e img name ident opts w" by blast
  then have op: "opacity (config v) = Some (case optOpacity opts of None \<Rightarrow> 3 / 100 | Some a \<Rightarrow> a)"
    by (cases "optOpacity opts") (simp_all add: config_variantOf overlayConfigOf_def)
  have rng: "(case optOpacity opts of
            None \<Rightarrow> (\<exists>a. opacity (config v) = Some a \<and> 0 < a \<and> a \<le> 1 / 10)
          | Some b \<Rightarrow> (\<exists>a. opacity (config v) = Some a \<and> 0 \<le> a \<and> a \<le> 1) = (0 \<le> b \<and> b \<le> 1))"
  proof (cases "optOpacity opts")
    case None
    from op have o: "opacity (config v) = Some (3 / 100)"
      unfolding None option.case .
    have "\<exists>a. opacity (config v) = Some a \<and> 0 < a \<and> a \<le> 1 / 10"
      unfolding o by (rule exI [of _ "3 / 100"]) simp
    then show ?thesis unfolding None option.case .
  next
    case (Some b)
    from op have o: "opacity (config v) = Some b"
      unfolding Some option.case .
    have "(\<exists>a. opacity (config v) = Some a \<and> 0 \<le> a \<and> a \<le> 1) = (0 \<le> b \<and> b \<le> 1)"
      unfolding o by auto
    then show ?thesis unfolding Some option.case .
  qed
  from op rng show ?thesis by (rule conjI)
qed

text \<open>
  A call without an opacity, in the concrete environment.
\<close>

theorem resolved_opacity_witness:
  "fst (generateVariant demoEnv demoImage ''Kurti'' ''cloaked-1700000000000-2'' demoOptions emptyWorld)
     = Inr (variantOf demoEnv demoImage ''Kurti'' ''cloaked-1700000000000-2'' demoOptions emptyWorld) \<and>
   opacity (config (variantOf demoEnv demoImage ''Kurti'' ''cloaked-1700000000000-2'' demoOptions
                      emptyWorld)) = Some (3 / 100)"
proof -
  have ctx: "getContext2d demoEnv" and put: "idbCompletes demoEnv (idbOps emptyWorld)"
    by (simp_all add: demoEnv_def)
  note ok = demo_fault_free(1) [OF demo_unscaled(1)]
  have run: "fst (generateVariant demoEnv demoImage ''Kurti'' ''cloaked-1700000000000-2'' demoOptions
                    emptyWorld)
     = Inr (variantOf demoEnv demoImage ''Kurti'' ''cloaked-1700000000000-2'' demoOptions emptyWorld)"
    by (simp add: generateVariant_completes [OF ctx ok put])
  from resolved_opacity [OF run]
  have "opacity (config (variantOf demoEnv demoImage ''Kurti'' ''cloaked-1700000000000-2'' demoOptions
                      emptyWorld))
     = Some (case optOpacity demoOptions of None \<Rightarrow> 3 / 100 | Some a \<Rightarrow> a)"
    by (rule conjunct1)
  then have "opacity (config (variantOf demoEnv demoImage ''Kurti'' ''cloaked-1700000000000-2''
                      demoOptions emptyWorld)) = Some (3 / 100)"
    by (simp add: demoOptions_def)
  with run show ?thesis by blast
qed

text \<open>
  C9 as stated fails: called with opacity 5, \<open>generateVariant\<close> returns a variant
  whose resolved configuration has opacity 5.
\<close>

theorem opacity_above_one_kept:
  "map_sum id (opacity \<circ> config)
     (fst (generateVariant demoEnv demoImage ''Kurti'' ''cloaked-1700000000000-0''
             (demoOptions\<lparr>optOpacity := Some 5\<rparr>) emptyWorld))
   = Inr (Some 5)"
proof -
  have ctx: "getContext2d demoEnv" and put: "idbCompletes demoEnv (idbOps emptyWorld)"
    by (simp_all add: demoEnv_def)
  note ok = demo_fault_free(1) [OF demo_unscaled(3)]
  show ?thesis
    by (simp add: generateVariant_completes [OF ctx ok put] config_variantOf overlayConfigOf_def)
qed

section \<open>Export file names\<close>


lemma splitOn_join:
  "splitOn c s \<noteq> [] \<and>
   s = concat (map (\<lambda>seg. seg @ [c]) (butlast (splitOn c s))) @ last (splitOn c s) \<and>
   (\<forall>seg\<in>set (splitOn c s). c \<notin> set seg)"
proof (induction s)
  case Nil
  then show ?case by simp
next
  case (Cons x xs)
  then obtain s0 ss where r: "splitOn c xs = s0 # ss"
    by (cases "splitOn c xs") auto
  from Cons have join: "xs = concat (map (\<lambda>seg. seg @ [c]) (butlast (s0 # ss))) @ last (s0 # ss)"
    and free: "\<forall>seg\<in>set (s0 # ss). c \<notin> set seg"
    unfolding r by blast+
  show ?case
  proof (cases "x = c")
    case True
    then have "splitOn c (x # xs) = [] # s0 # ss" by (simp add: r)
    with True join free show ?thesis by simp
  next
    case False
    then have "splitOn c (x # xs) = (x # s0) # ss" by (simp add: r)
    with False join free show ?thesis by (cases ss) auto
  qed
qed

lemma tail_segment:
  "c \<notin> set (last (splitOn c s)) \<and>
   (s = last (splitOn c s) \<or> (\<exists>p. s = p @ c # last (splitOn c s)))"
proof -
  from splitOn_join [of c s]
  have ne: "splitOn c s \<noteq> []"
    and join: "s = concat (map (\<lambda>seg. seg @ [c]) (butlast (splitOn c s))) @ last (splitOn c s)"
    and free: "\<forall>seg\<in>set (splitOn c s). c \<notin> set seg"
    by blast+
  from ne free have a: "c \<notin> set (last (splitOn c s))" by simp
  have b: "s = last (splitOn c s) \<or> (\<exists>p. s = p @ c # last (splitOn c s))"
  proof (cases "butlast (splitOn c s)" rule: rev_cases)
    case Nil
    with join show ?thesis by simp
  next
    case (snoc segs seg)
    with join have "s = (concat (map (\<lambda>seg. seg @ [c]) segs) @ seg) @ c # last (splitOn c s)"
      by simp
    then show ?thesis by blast
  qed
  from a b show ?thesis by (rule conjI)
qed

lemma shortIdOf_last: "shortIdOf v = last (splitOn CHR ''-'' (variantId v))"
  using splitOn_join [of "CHR ''-''" "variantId v"] by (simp add: shortIdOf_def pop_def)

lemma downloadLoop_downloads:
  "downloads (snd (downloadLoop vs i n plog w))
     = downloads w @ map (\<lambda>v. (dataUrl v, batchFilenameOf v)) (filter (\<lambda>v. dataUrl v \<noteq> []) vs)"
  by (induction vs arbitrary: i plog w) (auto simp: downloadImage_def)

lemma handleClearHistory_downloads: "downloads (snd (handleClearHistory e w)) = downloads w"
  by (simp add: handleClearHistory_def clearAllVariantsFromDB_def)

text \<open>
  The two batch paths. The short id is the tail segment of the id: it holds no \<open>-\<close>
  and is the whole id or what follows its last \<open>-\<close>. The file name of the bulk download
  and the one of the CSV export are a fixed prefix, the short id and \<open>.png\<close> for the
  format \<open>image/png\<close>, \<open>.jpg\<close> otherwise. The bulk download, unless one is already
  running, triggers one download under that name for each variant of the batch with a
  non-empty data URL, in order; the fourth cell of every CSV row is the CSV file name.
\<close>

lemma batch_filenames_follow_format:
  "CHR ''-'' \<notin> set (shortIdOf v) \<and>
   (variantId v = shortIdOf v \<or> (\<exists>p. variantId v = p @ CHR ''-'' # shortIdOf v)) \<and>
   batchFilenameOf v = ''cloaked-asset-'' @ shortIdOf v @
     (case exportFormat (config v) of Some ImagePng \<Rightarrow> ''.png'' | Some ImageJpeg \<Rightarrow> ''.jpg''
      | None \<Rightarrow> ''.jpg'') \<and>
   csvFilenameOf v = ''cloaked_opt_'' @ shortIdOf v @
     (case exportFormat (config v) of Some ImagePng \<Rightarrow> ''.png'' | Some ImageJpeg \<Rightarrow> ''.jpg''
      | None \<Rightarrow> ''.jpg'') \<and>
   downloads (snd (downloadBatchSequentially e st w))
     = downloads w @
       (if isBatchDownloading st then []
        else map (\<lambda>u. (dataUrl u, batchFilenameOf u)) (filter (\<lambda>u. dataUrl u \<noteq> []) (lastBatch st))) \<and>
   map (\<lambda>row. row ! 3) (map (csvRow e) variants) = map csvFilenameOf variants"
proof -
  from tail_segment [of "CHR ''-''" "variantId v"]
  have seg: "CHR ''-'' \<notin> set (shortIdOf v)"
    "variantId v = shortIdOf v \<or> (\<exists>p. variantId v = p @ CHR ''-'' # shortIdOf v)"
    unfolding shortIdOf_last by blast+
  have ext: "''.'' @ extOf v =
     (case exportFormat (config v) of Some ImagePng \<Rightarrow> ''.png'' | Some ImageJpeg \<Rightarrow> ''.jpg''
      | None \<Rightarrow> ''.jpg'')"
    by (simp add: extOf_def split: option.splits export_format.splits)
  have bf: "batchFilenameOf v = ''cloaked-asset-'' @ shortIdOf v @
     (case exportFormat (config v) of Some ImagePng \<Rightarrow> ''.png'' | Some ImageJpeg \<Rightarrow> ''.jpg''
      | None \<Rightarrow> ''.jpg'')"
    unfolding batchFilenameOf_def ext [symmetric] by simp
  have cf: "csvFilenameOf v = ''cloaked_opt_'' @ shortIdOf v @
     (case exportFormat (config v) of Some ImagePng \<Rightarrow> ''.png'' | Some ImageJpeg \<Rightarrow> ''.jpg''
      | None \<Rightarrow> ''.jpg'')"
    unfolding csvFilenameOf_def ext [symmetric] by simp
  have dl: "downloads (snd (downloadBatchSequentially e st w))
     = downloads w @
       (if isBatchDownloading st then []
        else map (\<lambda>u. (dataUrl u, batchFilenameOf u)) (filter (\<lambda>u. dataUrl u \<noteq> []) (lastBatch st)))"
    by (simp add: downloadBatchSequentially_def Let_def downloadLoop_downloads
        handleClearHistory_downloads)
  have csv: "map (\<lambda>row. row ! 3) (map (csvRow e) variants) = map csvFilenameOf variants"
    by (simp add: csvRow_def Let_def)
  from seg bf cf dl csv show ?thesis by (intro conjI)
qed


text \<open>
  The two buttons that save one variant end the name in \<open>.jpg\<close> whatever the format,
  and \<open>Download Single\<close> takes the last four characters of the id, not its tail
  segment.
\<close>

lemma single_downloads_fixed_extension:
  "singleFilenameOf v = ''v-'' @ drop (length (variantId v) - 4) (variantId v) @ ''.jpg'' \<and>
   bestFilenameOf v = ''optimized-master-'' @ shortIdOf v @ ''.jpg'' \<and>
   downloads (downloadSingle v w)
     = downloads w @ (if dataUrl v = [] then [] else [(dataUrl v, singleFilenameOf v)]) \<and>
   downloads (handleDownloadBest (Some v) w)
     = downloads w @ (if dataUrl v = [] then [] else [(dataUrl v, bestFilenameOf v)])"
  by (simp add: singleFilenameOf_def bestFilenameOf_def downloadSingle_def
      handleDownloadBest_def downloadImage_def)


section \<open>Decimal rendering and ids\<close>


lemma of_char_digitChar: "n < 10 \<Longrightarrow> of_char (digitChar n) = 48 + n"
  by (simp add: digitChar_def)

lemma digitChar_inj: "m < 10 \<Longrightarrow> n < 10 \<Longrightarrow> digitChar m = digitChar n \<Longrightarrow> m = n"
proof -
  assume m: "m < 10" and n: "n < 10" and eq: "digitChar m = digitChar n"
  from eq have "(of_char (digitChar m) :: nat) = of_char (digitChar n)" by simp
  with m n show "m = n" by (simp add: of_char_digitChar)
qed

lemma digitChar_not_dash: "n < 10 \<Longrightarrow> digitChar n \<noteq> CHR ''-''"
proof
  assume n: "n < 10" and eq: "digitChar n = CHR ''-''"
  from eq have "(of_char (digitChar n) :: nat) = of_char CHR ''-''" by simp
  with n show False by (simp add: of_char_digitChar)
qed

lemma showNat_small: "n < 10 \<Longrightarrow> showNat n = [digitChar n]"
  by (subst showNat.simps) simp

lemma showNat_large: "\<not> n < 10 \<Longrightarrow> showNat n = showNat (n div 10) @ [digitChar (n mod 10)]"
  by (subst showNat.simps) simp

lemma showNat_nonempty: "showNat n \<noteq> []"
  by (cases "n < 10") (simp_all add: showNat_small showNat_large)

lemma showNat_no_dash: "CHR ''-'' \<notin> set (showNat n)"
proof (induction n rule: showNat.induct)
  case (1 n)
  show ?case
  proof (cases "n < 10")
    case True
    then show ?thesis using digitChar_not_dash [of n] by (auto simp: showNat_small)
  next
    case False
    have "n mod 10 < 10" by simp
    then have "digitChar (n mod 10) \<noteq> CHR ''-''" by (rule digitChar_not_dash)
    with False 1 show ?thesis by (auto simp: showNat_large)
  qed
qed

lemma showNat_inj: "showNat m = showNat n \<Longrightarrow> m = n"
proof (induction m arbitrary: n rule: showNat.induct)
  case (1 m)
  show ?case
  proof (cases "m < 10")
    case m: True
    show ?thesis
    proof (cases "n < 10")
      case True
      with m "1.prems" show ?thesis
        by (auto simp: showNat_small dest: digitChar_inj)
    next
      case False
      with m "1.prems" showNat_nonempty [of "n div 10"] show ?thesis
        by (simp add: showNat_small showNat_large)
    qed
  next
    case m: False
    show ?thesis
    proof (cases "n < 10")
      case True
      with m "1.prems" showNat_nonempty [of "m div 10"] show ?thesis
        by (simp add: showNat_small showNat_large)
    next
      case False
      with m "1.prems" have eq: "showNat (m div 10) = showNat (n div 10)"
        and d: "digitChar (m mod 10) = digitChar (n mod 10)"
        by (simp_all add: showNat_large)
      from "1.IH" [OF m eq] have "m div 10 = n div 10" .
      moreover from d have "m mod 10 = n mod 10"
        by (intro digitChar_inj) simp_all
      ultimately show ?thesis by (metis div_mult_mod_eq)
    qed
  qed
qed

lemma dashed_suffix_inj:
  assumes "p @ CHR ''-'' # showNat i = q @ CHR ''-'' # showNat j"
  shows "i = j"
proof -
  have "rev (showNat i) @ CHR ''-'' # rev p = rev (showNat j) @ CHR ''-'' # rev q"
    using arg_cong [OF assms, of rev] by simp
  then have "takeWhile (\<lambda>c. c \<noteq> CHR ''-'') (rev (showNat i) @ CHR ''-'' # rev p)
      = takeWhile (\<lambda>c. c \<noteq> CHR ''-'') (rev (showNat j) @ CHR ''-'' # rev q)"
    by simp
  moreover have "takeWhile (\<lambda>c. c \<noteq> CHR ''-'') (rev (showNat k) @ CHR ''-'' # r) = rev (showNat k)"
    for k r
  proof -
    have "takeWhile (\<lambda>c. c \<noteq> CHR ''-'') (rev (showNat k) @ CHR ''-'' # r)
        = rev (showNat k) @ takeWhile (\<lambda>c. c \<noteq> CHR ''-'') (CHR ''-'' # r)"
      using showNat_no_dash [of k] by (intro takeWhile_append2) auto
    then show ?thesis by simp
  qed
  ultimately have "rev (showNat i) = rev (showNat j)" by simp
  then show ?thesis by (simp add: showNat_inj)
qed

lemma variantIdOf_inj: "variantIdOf e i w = variantIdOf e' j w' \<Longrightarrow> i = j"
proof -
  assume "variantIdOf e i w = variantIdOf e' j w'"
  then have "(''cloaked-'' @ showInt (dateNow e (ticks w))) @ CHR ''-'' # showNat i
      = (''cloaked-'' @ showInt (dateNow e' (ticks w'))) @ CHR ''-'' # showNat j"
    by (simp add: variantIdOf_def)
  then show "i = j" by (rule dashed_suffix_inj)
qed

section \<open>The generation loop\<close>


lemma genLoop_done:
  "\<not> real i < variantCount st \<Longrightarrow> genLoop e img st i nv plog w = (Inr nv, plog, w)"
  by (subst genLoop.simps) simp

lemma genLoop_step:
  assumes "real i < variantCount st" "getContext2d e"
    and "canvasFault e img (optionsOfState st) = None" "idbCompletes e (idbOps w)"
  shows "genLoop e img st i nv plog w =
     genLoop e img st (Suc i)
       (nv @ [variantOf e img (productName st) (variantIdOf e i w) (optionsOfState st)
                (w\<lparr>ticks := Suc (ticks w)\<rparr>)])
       (plog @ [progressAt i (variantCount st)])
       (snd (generateVariant e img (productName st) (variantIdOf e i w) (optionsOfState st)
               (w\<lparr>ticks := Suc (ticks w)\<rparr>)))"
  using assms by (subst genLoop.simps) (simp add: generateVariant_completes)

lemma genLoop_rejected:
  assumes "real i < variantCount st" "getContext2d e"
    and "canvasFault e img (optionsOfState st) = None" "\<not> idbCompletes e (idbOps w)"
  shows "genLoop e img st i nv plog w =
     (Inl StoreRejected, plog,
      snd (generateVariant e img (productName st) (variantIdOf e i w) (optionsOfState st)
             (w\<lparr>ticks := Suc (ticks w)\<rparr>)))"
  using assms by (subst genLoop.simps) (simp add: generateVariant_rejects)

lemma generateVariant_counters:
  assumes "getContext2d e" "canvasFault e img opts = None"
  shows "idbOps (snd (generateVariant e img name ident opts w)) = Suc (idbOps w)"
    and "ticks (snd (generateVariant e img name ident opts w)) = Suc (ticks w)"
  using assms by (simp_all add: generateVariant_def saveVariantToDB_def Let_def)

lemma genLoop_completes:
  assumes ctx: "getContext2d e" and ok: "canvasFault e img (optionsOfState st) = None"
    and puts: "\<forall>k. idbCompletes e k"
    and n: "variantCount st = real N"
  shows "i + m = N \<Longrightarrow>
    \<exists>vs w'. genLoop e img st i nv plog w
        = (Inr (nv @ vs), plog @ map (\<lambda>j. progressAt j (real N)) [i..<N], w') \<and>
      length vs = m \<and>
      (\<forall>j<m. variantId (vs ! j)
                = ''cloaked-'' @ showInt (dateNow e (ticks w + 2 * j)) @ ''-'' @ showNat (i + j) \<and>
              timestamp (vs ! j) = Some (dateNow e (ticks w + 2 * j + 1)) \<and>
              status (vs ! j) = Pending) \<and>
      idbOps w' = idbOps w + m \<and> ticks w' = ticks w + 2 * m"
proof (induction m arbitrary: i nv plog w)
  case 0
  then have "\<not> real i < variantCount st" by (simp add: n)
  from genLoop_done [OF this] 0 show ?case by simp
next
  case (Suc m)
  then have lt: "real i < variantCount st" and iN: "i < N" by (simp_all add: n)
  let ?w1 = "w\<lparr>ticks := Suc (ticks w)\<rparr>"
  let ?v = "variantOf e img (productName st) (variantIdOf e i w) (optionsOfState st) ?w1"
  let ?w2 = "snd (generateVariant e img (productName st) (variantIdOf e i w) (optionsOfState st) ?w1)"
  have put: "idbCompletes e (idbOps w)" using puts by blast
  have step: "genLoop e img st i nv plog w
      = genLoop e img st (Suc i) (nv @ [?v]) (plog @ [progressAt i (variantCount st)]) ?w2"
    by (rule genLoop_step [OF lt ctx ok put])
  have c2: "idbOps ?w2 = Suc (idbOps w)" and t2: "ticks ?w2 = ticks w + 2"
    using generateVariant_counters [OF ctx ok, of "productName st" "variantIdOf e i w" ?w1]
    by simp_all
  from Suc.prems have "Suc i + m = N" by simp
  from Suc.IH [OF this, of "nv @ [?v]" "plog @ [progressAt i (variantCount st)]" ?w2]
  obtain vs w' where
    run: "genLoop e img st (Suc i) (nv @ [?v]) (plog @ [progressAt i (variantCount st)]) ?w2
        = (Inr ((nv @ [?v]) @ vs),
           (plog @ [progressAt i (variantCount st)]) @ map (\<lambda>j. progressAt j (real N)) [Suc i..<N],
           w')"
    and len: "length vs = m"
    and items: "\<forall>j<m. variantId (vs ! j)
                = ''cloaked-'' @ showInt (dateNow e (ticks ?w2 + 2 * j)) @ ''-'' @ showNat (Suc i + j) \<and>
              timestamp (vs ! j) = Some (dateNow e (ticks ?w2 + 2 * j + 1)) \<and>
              status (vs ! j) = Pending"
    and ops: "idbOps w' = idbOps ?w2 + m" and tk: "ticks w' = ticks ?w2 + 2 * m"
    by blast
  have v: "variantId ?v = ''cloaked-'' @ showInt (dateNow e (ticks w)) @ ''-'' @ showNat i"
    "timestamp ?v = Some (dateNow e (ticks w + 1))" "status ?v = Pending"
    by (simp_all add: variantOf_def variantIdOf_def Let_def)
  have upt: "[i..<N] = i # [Suc i..<N]" using iN by (rule upt_conv_Cons)
  have res: "genLoop e img st i nv plog w
        = (Inr (nv @ (?v # vs)), plog @ map (\<lambda>j. progressAt j (real N)) [i..<N], w')"
    unfolding step run upt by (simp add: n)
  have all: "\<forall>j<Suc m. variantId ((?v # vs) ! j)
                = ''cloaked-'' @ showInt (dateNow e (ticks w + 2 * j)) @ ''-'' @ showNat (i + j) \<and>
              timestamp ((?v # vs) ! j) = Some (dateNow e (ticks w + 2 * j + 1)) \<and>
              status ((?v # vs) ! j) = Pending"
  proof (intro allI impI)
    fix j assume j: "j < Suc m"
    show "variantId ((?v # vs) ! j)
                = ''cloaked-'' @ showInt (dateNow e (ticks w + 2 * j)) @ ''-'' @ showNat (i + j) \<and>
              timestamp ((?v # vs) ! j) = Some (dateNow e (ticks w + 2 * j + 1)) \<and>
              status ((?v # vs) ! j) = Pending"
    proof (cases j)
      case 0
      with v show ?thesis by simp
    next
      case (Suc j')
      with j have "j' < m" by simp
      with items have "variantId (vs ! j')
                = ''cloaked-'' @ showInt (dateNow e (ticks ?w2 + 2 * j')) @ ''-'' @ showNat (Suc i + j') \<and>
              timestamp (vs ! j') = Some (dateNow e (ticks ?w2 + 2 * j' + 1)) \<and>
              status (vs ! j') = Pending"
        by blast
      then show ?thesis unfolding t2 Suc by (simp add: add.commute add.left_commute)
    qed
  qed
  have "length (?v # vs) = Suc m" using len by simp
  moreover have "idbOps w' = idbOps w + Suc m" using ops c2 by simp
  moreover have "ticks w' = ticks w + 2 * Suc m" using tk t2 by simp
  ultimately show ?case using res all by blast
qed

lemma genLoop_put_rejected:
  assumes ctx: "getContext2d e" and ok: "canvasFault e img (optionsOfState st) = None"
    and n: "variantCount st = real N"
  shows "i + m < N \<Longrightarrow> \<forall>k<m. idbCompletes e (idbOps w + k) \<Longrightarrow>
    \<not> idbCompletes e (idbOps w + m) \<Longrightarrow>
    \<exists>w'. genLoop e img st i nv plog w
        = (Inl StoreRejected, plog @ map (\<lambda>j. progressAt j (real N)) [i..<i + m], w') \<and>
      idbOps w' = idbOps w + Suc m"
proof (induction m arbitrary: i nv plog w)
  case 0
  then have lt: "real i < variantCount st" and bad: "\<not> idbCompletes e (idbOps w)"
    by (simp_all add: n)
  from genLoop_rejected [OF lt ctx ok bad, of nv plog] generateVariant_counters(1) [OF ctx ok]
  show ?case by simp
next
  case (Suc m)
  then have lt: "real i < variantCount st"
    by (simp add: n)
  from Suc.prems have "idbCompletes e (idbOps w + 0)"
    by blast
  then have put: "idbCompletes e (idbOps w)"
    by simp
  let ?w1 = "w\<lparr>ticks := Suc (ticks w)\<rparr>"
  let ?v = "variantOf e img (productName st) (variantIdOf e i w) (optionsOfState st) ?w1"
  let ?w2 = "snd (generateVariant e img (productName st) (variantIdOf e i w) (optionsOfState st) ?w1)"
  have step: "genLoop e img st i nv plog w
      = genLoop e img st (Suc i) (nv @ [?v]) (plog @ [progressAt i (variantCount st)]) ?w2"
    by (rule genLoop_step [OF lt ctx ok put])
  have c2: "idbOps ?w2 = Suc (idbOps w)"
    using generateVariant_counters(1) [OF ctx ok, of "productName st" "variantIdOf e i w" ?w1]
    by simp
  from Suc.prems have a: "Suc i + m < N" by simp
  from Suc.prems have b: "\<forall>k<m. idbCompletes e (idbOps ?w2 + k)"
    unfolding c2 by (metis Suc_less_eq add_Suc add_Suc_right)
  from Suc.prems have c: "\<not> idbCompletes e (idbOps ?w2 + m)"
    unfolding c2 by simp
  from Suc.IH [OF a b c, of "nv @ [?v]" "plog @ [progressAt i (variantCount st)]"]
  obtain w' where
    run: "genLoop e img st (Suc i) (nv @ [?v]) (plog @ [progressAt i (variantCount st)]) ?w2
        = (Inl StoreRejected,
           (plog @ [progressAt i (variantCount st)])
             @ map (\<lambda>j. progressAt j (real N)) [Suc i..<Suc i + m], w')"
    and ops: "idbOps w' = idbOps ?w2 + Suc m"
    by blast
  have upt: "[i..<i + Suc m] = i # [Suc i..<Suc i + m]"
    by (simp add: upt_conv_Cons)
  have "genLoop e img st i nv plog w
        = (Inl StoreRejected, plog @ map (\<lambda>j. progressAt j (real N)) [i..<i + Suc m], w')"
    unfolding step run upt by (simp add: n)
  moreover have "idbOps w' = idbOps w + Suc (Suc m)" using ops c2 by simp
  ultimately show ?case by blast
qed

lemma progress_sorted:
  assumes "0 < N"
  shows "sorted (0 # map (\<lambda>j. progressAt j (real N)) [0..<N]) \<and>
         last (0 # map (\<lambda>j. progressAt j (real N)) [0..<N]) = 100"
proof -
  have mono: "progressAt x (real N) \<le> progressAt y (real N)" if "x < y" for x y
    using that assms by (simp add: progressAt_def divide_right_mono)
  have "sorted_wrt (\<lambda>x y. progressAt x (real N) \<le> progressAt y (real N)) [0..<N]"
    by (rule sorted_wrt_mono_rel [OF _ sorted_wrt_upt]) (rule mono)
  then have s: "sorted (map (\<lambda>j. progressAt j (real N)) [0..<N])"
    by (simp add: sorted_map)
  have pos: "0 \<le> progressAt j (real N)" for j
    by (simp add: progressAt_def)
  obtain n where N: "N = Suc n" using assms by (cases N) auto
  have l: "last (0 # map (\<lambda>j. progressAt j (real N)) [0..<N]) = 100"
    unfolding N by (simp add: progressAt_def field_simps)
  from s pos l show ?thesis by auto
qed

section \<open>Batches\<close>


lemma handleGenerate_rejected:
  assumes src: "baseImage st = Some src" "src \<noteq> []" and name: "productName st \<noteq> []"
    and img: "imageOf e src = Some img" and ctx: "getContext2d e"
    and ok: "canvasFault e img (optionsOfState st) = None"
    and n: "variantCount st = real N" and m: "m < N"
    and before: "\<forall>k<m. idbCompletes e (idbOps w + k)"
    and bad: "\<not> idbCompletes e (idbOps w + m)"
  shows "delivered (fst (handleGenerate e st w)) = delivered st \<and>
         errorLog (fst (handleGenerate e st w)) = errorLog st @ [StoreRejected] \<and>
         isGenerating (fst (handleGenerate e st w)) = False \<and>
         progressLog (fst (handleGenerate e st w))
           = progressLog st @ 0 # map (\<lambda>j. progressAt j (real N)) [0..<m] \<and>
         idbOps (snd (handleGenerate e st w)) = idbOps w + Suc m"
proof -
  let ?st1 = "st\<lparr>isGenerating := True, progressLog := progressLog st @ [0]\<rparr>"
  have n1: "variantCount ?st1 = real N" using n by simp
  have ok1: "canvasFault e img (optionsOfState ?st1) = None"
    using ok by (simp add: optionsOfState_def)
  from m have m0: "0 + m < N" by simp
  from genLoop_put_rejected [OF ctx ok1 n1 m0 before bad, of "[]" "progressLog ?st1"]
  obtain w' where
    run: "genLoop e img ?st1 0 [] (progressLog ?st1) w
        = (Inl StoreRejected,
           progressLog ?st1 @ map (\<lambda>j. progressAt j (real N)) [0..<0 + m], w')"
    and ops: "idbOps w' = idbOps w + Suc m"
    by blast
  have "handleGenerate e st w
      = (?st1\<lparr>progressLog := progressLog ?st1 @ map (\<lambda>j. progressAt j (real N)) [0..<0 + m],
               errorLog := errorLog ?st1 @ [StoreRejected], isGenerating := False\<rparr>, w')"
    unfolding handleGenerate_def src option.case Let_def img run using src(2) name by simp
  then show ?thesis using ops by simp
qed

text \<open>
  C2 (as the code has it). A rejected put is fatal to the batch. When the put of item
  \<open>m\<close> is the first to be rejected, \<open>generateVariant\<close> itself returns no variant: it
  rejects with the store's error, or with the error of the canvas when the raster
  cannot be read, in which case the put is not reached. With a readable raster,
  \<open>handleGenerate\<close> catches and logs the store's error, so that nothing leaves
  \<open>handleGenerate\<close> and \<open>isGenerating\<close> is reset, but the loop stops at that item
  (\<open>m + 1\<close> database operations, progress reported for the \<open>m\<close> items before it only)
  and \<open>onVariantsGenerated\<close> is not called.
\<close>

theorem put_failure_aborts_batch:
  assumes "baseImage st = Some src" "src \<noteq> []" "productName st \<noteq> []"
    and "imageOf e src = Some img" and ctx: "getContext2d e"
    and "canvasFault e img (optionsOfState st) = None"
    and "variantCount st = real N" and "m < N"
    and "\<forall>k<m. idbCompletes e (idbOps w + k)"
    and bad: "\<not> idbCompletes e (idbOps w + m)"
  shows "fst (generateVariant e img name ident opts (w0\<lparr>idbOps := idbOps w + m\<rparr>))
           = Inl (case canvasFault e img opts of None \<Rightarrow> StoreRejected | Some err \<Rightarrow> err) \<and>
         delivered (fst (handleGenerate e st w)) = delivered st \<and>
         errorLog (fst (handleGenerate e st w)) = errorLog st @ [StoreRejected] \<and>
         isGenerating (fst (handleGenerate e st w)) = False \<and>
         progressLog (fst (handleGenerate e st w))
           = progressLog st @ 0 # map (\<lambda>j. progressAt j (real N)) [0..<m] \<and>
         idbOps (snd (handleGenerate e st w)) = idbOps w + Suc m"
proof -
  have bad0: "\<not> idbCompletes e (idbOps (w0\<lparr>idbOps := idbOps w + m\<rparr>))"
    using bad by simp
  have gv: "fst (generateVariant e img name ident opts (w0\<lparr>idbOps := idbOps w + m\<rparr>))
           = Inl (case canvasFault e img opts of None \<Rightarrow> StoreRejected | Some err \<Rightarrow> err)"
  proof (cases "canvasFault e img opts")
    case None
    from generateVariant_rejects [OF ctx None bad0, of name ident]
    show ?thesis unfolding None by simp
  next
    case (Some err)
    from generateVariant_faults [OF ctx Some, of name ident]
    show ?thesis unfolding Some by simp
  qed
  from gv handleGenerate_rejected [OF assms] show ?thesis by (rule conjI)
qed

lemma demo_batch_facts:
  "baseImage demoState = Some ''data:image/png;base64,AAAA''"
  "''data:image/png;base64,AAAA'' \<noteq> []"
  "productName demoState \<noteq> []"
  "variantCount demoState = real 2"
  "delivered demoState = []" "errorLog demoState = []" "progressLog demoState = []"
  "autoNavigate demoState = False"
  by (simp_all add: demoState_def)

lemma failingEnv_facts:
  "imageOf failingEnv ''data:image/png;base64,AAAA'' = Some demoImage"
  "getContext2d failingEnv"
  "\<not> idbCompletes failingEnv k"
  by (simp_all add: failingEnv_def demoEnv_def)

lemmas demo_readable = demo_fault_free [OF demo_unscaled(4)]

lemma demoEnv_facts:
  "imageOf demoEnv ''data:image/png;base64,AAAA'' = Some demoImage"
  "getContext2d demoEnv"
  "idbCompletes demoEnv k"
  by (simp_all add: demoEnv_def)

text \<open>
  A batch of two in the environment whose database always fails.
\<close>

theorem put_failure_aborts_batch_witness:
  "baseImage demoState = Some ''data:image/png;base64,AAAA'' \<and>
   productName demoState \<noteq> [] \<and>
   imageOf failingEnv ''data:image/png;base64,AAAA'' = Some demoImage \<and>
   getContext2d failingEnv \<and>
   canvasFault failingEnv demoImage (optionsOfState demoState) = None \<and>
   variantCount demoState = real 2 \<and>
   \<not> idbCompletes failingEnv (idbOps emptyWorld + 0) \<and>
   delivered (fst (handleGenerate failingEnv demoState emptyWorld)) = [] \<and>
   errorLog (fst (handleGenerate failingEnv demoState emptyWorld)) = [StoreRejected] \<and>
   progressLog (fst (handleGenerate failingEnv demoState emptyWorld)) = [0] \<and>
   idbOps (snd (handleGenerate failingEnv demoState emptyWorld)) = 1"
proof -
  have m: "(0::nat) < 2" by simp
  have before: "\<forall>k<0. idbCompletes failingEnv (idbOps emptyWorld + k)" by simp
  have bad: "\<not> idbCompletes failingEnv (idbOps emptyWorld + 0)"
    by (rule failingEnv_facts)
  from put_failure_aborts_batch [OF demo_batch_facts(1-3) failingEnv_facts(1,2)
      demo_readable(2) demo_batch_facts(4) m before bad,
      of "''Kurti''" "''x''" demoOptions emptyWorld]
  have "delivered (fst (handleGenerate failingEnv demoState emptyWorld)) = []"
    "errorLog (fst (handleGenerate failingEnv demoState emptyWorld)) = [StoreRejected]"
    "progressLog (fst (handleGenerate failingEnv demoState emptyWorld)) = [0]"
    "idbOps (snd (handleGenerate failingEnv demoState emptyWorld)) = 1"
    by (simp_all add: demo_batch_facts emptyWorld_def)
  with demo_batch_facts failingEnv_facts demo_readable(2) bad show ?thesis by simp
qed

text \<open>
  C2 as stated fails: with a failing database and a count of 2, the pipeline call
  rejects with the store's error, one database operation is made instead of two, and
  no variant is handed to the application.
\<close>

theorem rejected_put_stops_generation:
  "variantCount demoState = 2 \<and>
   fst (generateVariant failingEnv demoImage ''Kurti'' ''cloaked-1700000000000-0'' demoOptions
          emptyWorld) = Inl StoreRejected \<and>
   delivered (fst (handleGenerate failingEnv demoState emptyWorld)) = [] \<and>
   errorLog (fst (handleGenerate failingEnv demoState emptyWorld)) = [StoreRejected] \<and>
   idbOps (snd (handleGenerate failingEnv demoState emptyWorld)) = 1"
proof -
  have m: "(0::nat) < 2" by simp
  have before: "\<forall>k<0. idbCompletes failingEnv (idbOps emptyWorld + k)" by simp
  have bad: "\<not> idbCompletes failingEnv (idbOps emptyWorld + 0)"
    by (rule failingEnv_facts)
  have bad0: "\<not> idbCompletes failingEnv (idbOps emptyWorld)"
    by (rule failingEnv_facts)
  from generateVariant_rejects [OF failingEnv_facts(2)
      demo_fault_free(2) [OF demo_unscaled(1)] bad0]
  have gv: "fst (generateVariant failingEnv demoImage ''Kurti'' ''cloaked-1700000000000-0''
                   demoOptions emptyWorld) = Inl StoreRejected"
    by simp
  from handleGenerate_rejected [OF demo_batch_facts(1-3) failingEnv_facts(1,2)
      demo_readable(2) demo_batch_facts(4) m before bad]
  have "delivered (fst (handleGenerate failingEnv demoState emptyWorld)) = []"
    "errorLog (fst (handleGenerate failingEnv demoState emptyWorld)) = [StoreRejected]"
    "idbOps (snd (handleGenerate failingEnv demoState emptyWorld)) = 1"
    by (simp_all add: demo_batch_facts emptyWorld_def)
  with gv demo_batch_facts(4) show ?thesis by simp
qed

text \<open>
  C5. With a source image that loads, a drawing context, a canvas whose raster can be
  read (it has at least one pixel each way) and a store that completes every put, a
  count \<open>N \<ge> 1\<close> makes \<open>handleGenerate\<close> deliver one batch of exactly
  \<open>N\<close> variants: item \<open>j\<close> carries the id \<open>cloaked-<clock>-<j>\<close> and the next clock
  reading as its timestamp, so the items stand in creation order and their ids are
  pairwise distinct; the pipeline ran \<open>N\<close> times, one after the other (\<open>N\<close> database
  operations, \<open>2N\<close> clock readings); and the progress reported is 0, then
  \<open>(j + 1) / N \<times> 100\<close> after item \<open>j\<close>, a non-decreasing sequence that ends at 100.
\<close>

theorem batch_generation:
  assumes src: "baseImage st = Some src" "src \<noteq> []" and name: "productName st \<noteq> []"
    and img: "imageOf e src = Some img" and ctx: "getContext2d e"
    and ok: "canvasFault e img (optionsOfState st) = None"
    and puts: "\<forall>k. idbCompletes e k"
    and n: "variantCount st = real N" and pos: "1 \<le> N"
  shows "\<exists>vs. delivered (fst (handleGenerate e st w)) = delivered st @ [(vs, autoNavigate st)] \<and>
      length vs = N \<and> distinct (map variantId vs) \<and>
      (\<forall>j<N. variantId (vs ! j)
                = ''cloaked-'' @ showInt (dateNow e (ticks w + 2 * j)) @ ''-'' @ showNat j \<and>
              timestamp (vs ! j) = Some (dateNow e (ticks w + 2 * j + 1)) \<and>
              status (vs ! j) = Pending) \<and>
      progressLog (fst (handleGenerate e st w))
        = progressLog st @ 0 # map (\<lambda>j. real (j + 1) / real N * 100) [0..<N] \<and>
      sorted (0 # map (\<lambda>j. real (j + 1) / real N * 100) [0..<N]) \<and>
      last (0 # map (\<lambda>j. real (j + 1) / real N * 100) [0..<N]) = 100 \<and>
      idbOps (snd (handleGenerate e st w)) = idbOps w + N \<and>
      ticks (snd (handleGenerate e st w)) = ticks w + 2 * N \<and>
      errorLog (fst (handleGenerate e st w)) = errorLog st \<and>
      isGenerating (fst (handleGenerate e st w)) = False"
proof -
  let ?st1 = "st\<lparr>isGenerating := True, progressLog := progressLog st @ [0]\<rparr>"
  have n1: "variantCount ?st1 = real N" using n by simp
  have pa: "(\<lambda>j. progressAt j (real N)) = (\<lambda>j. real (j + 1) / real N * 100)"
    by (simp add: progressAt_def fun_eq_iff)
  have ok1: "canvasFault e img (optionsOfState ?st1) = None"
    using ok by (simp add: optionsOfState_def)
  have zN: "0 + N = N" by simp
  from genLoop_completes [OF ctx ok1 puts n1 zN, of "[]" "progressLog ?st1" w]
  obtain vs w' where
    run: "genLoop e img ?st1 0 [] (progressLog ?st1) w
        = (Inr ([] @ vs), progressLog ?st1 @ map (\<lambda>j. progressAt j (real N)) [0..<N], w')"
    and len: "length vs = N"
    and items: "\<forall>j<N. variantId (vs ! j)
                = ''cloaked-'' @ showInt (dateNow e (ticks w + 2 * j)) @ ''-'' @ showNat (0 + j) \<and>
              timestamp (vs ! j) = Some (dateNow e (ticks w + 2 * j + 1)) \<and>
              status (vs ! j) = Pending"
    and ops: "idbOps w' = idbOps w + N" and tk: "ticks w' = ticks w + 2 * N"
    by blast
  have hg: "handleGenerate e st w
      = (?st1\<lparr>progressLog := progressLog ?st1 @ map (\<lambda>j. progressAt j (real N)) [0..<N],
               delivered := delivered ?st1 @ [([] @ vs, autoNavigate ?st1)],
               isGenerating := False\<rparr>, w')"
    unfolding handleGenerate_def src option.case Let_def img run using src(2) name by simp
  have items': "\<forall>j<N. variantId (vs ! j)
                = ''cloaked-'' @ showInt (dateNow e (ticks w + 2 * j)) @ ''-'' @ showNat j \<and>
              timestamp (vs ! j) = Some (dateNow e (ticks w + 2 * j + 1)) \<and>
              status (vs ! j) = Pending"
    using items by simp
  have dist: "distinct (map variantId vs)"
  proof (unfold distinct_conv_nth, intro allI impI)
    fix a b
    assume a: "a < length (map variantId vs)" and b: "b < length (map variantId vs)"
      and ab: "a \<noteq> b"
    from a b len have aN: "a < N" and bN: "b < N" by simp_all
    show "map variantId vs ! a \<noteq> map variantId vs ! b"
    proof
      assume "map variantId vs ! a = map variantId vs ! b"
      with a b have "variantId (vs ! a) = variantId (vs ! b)" by simp
      with items' aN bN
      have "(''cloaked-'' @ showInt (dateNow e (ticks w + 2 * a))) @ CHR ''-'' # showNat a
          = (''cloaked-'' @ showInt (dateNow e (ticks w + 2 * b))) @ CHR ''-'' # showNat b"
        by simp
      then have "a = b" by (rule dashed_suffix_inj)
      with ab show False by simp
    qed
  qed
  from pos have "0 < N" by simp
  from progress_sorted [OF this]
  have srt: "sorted (0 # map (\<lambda>j. real (j + 1) / real N * 100) [0..<N])"
    and lst: "last (0 # map (\<lambda>j. real (j + 1) / real N * 100) [0..<N]) = 100"
    unfolding pa by blast+
  have d: "delivered (fst (handleGenerate e st w)) = delivered st @ [(vs, autoNavigate st)]"
    and pl: "progressLog (fst (handleGenerate e st w))
        = progressLog st @ 0 # map (\<lambda>j. real (j + 1) / real N * 100) [0..<N]"
    and io: "idbOps (snd (handleGenerate e st w)) = idbOps w + N"
    and ti: "ticks (snd (handleGenerate e st w)) = ticks w + 2 * N"
    and el: "errorLog (fst (handleGenerate e st w)) = errorLog st"
    and ig: "isGenerating (fst (handleGenerate e st w)) = False"
    unfolding hg pa using ops tk by simp_all
  from d len dist items' pl srt lst io ti el ig show ?thesis
    by (intro exI [of _ vs] conjI)
qed

text \<open>
  A batch of two in the concrete environment.
\<close>

theorem batch_generation_witness:
  "baseImage demoState = Some ''data:image/png;base64,AAAA'' \<and>
   productName demoState \<noteq> [] \<and>
   imageOf demoEnv ''data:image/png;base64,AAAA'' = Some demoImage \<and>
   getContext2d demoEnv \<and>
   canvasFault demoEnv demoImage (optionsOfState demoState) = None \<and>
   (\<forall>k. idbCompletes demoEnv k) \<and>
   variantCount demoState = real 2 \<and> (1::nat) \<le> 2 \<and>
   progressLog (fst (handleGenerate demoEnv demoState emptyWorld)) = [0, 50, 100] \<and>
   idbOps (snd (handleGenerate demoEnv demoState emptyWorld)) = 2 \<and>
   length (fst (last (delivered (fst (handleGenerate demoEnv demoState emptyWorld))))) = 2"
proof -
  have puts: "\<forall>k. idbCompletes demoEnv k" by (simp add: demoEnv_facts)
  have pos: "(1::nat) \<le> 2" by simp
  from batch_generation [OF demo_batch_facts(1-3) demoEnv_facts(1,2) demo_readable(1) puts
      demo_batch_facts(4) pos, of emptyWorld]
  obtain vs where
    d: "delivered (fst (handleGenerate demoEnv demoState emptyWorld))
          = delivered demoState @ [(vs, autoNavigate demoState)]"
    and len: "length vs = 2"
    and pl: "progressLog (fst (handleGenerate demoEnv demoState emptyWorld))
        = progressLog demoState @ 0 # map (\<lambda>j. real (j + 1) / real 2 * 100) [0..<2]"
    and io: "idbOps (snd (handleGenerate demoEnv demoState emptyWorld)) = idbOps emptyWorld + 2"
    by blast
  have "[0..<2] = [0, 1]" by (simp add: upt_rec)
  with pl have "progressLog (fst (handleGenerate demoEnv demoState emptyWorld)) = [0, 50, 100]"
    by (simp add: demo_batch_facts)
  moreover from io have "idbOps (snd (handleGenerate demoEnv demoState emptyWorld)) = 2"
    by (simp add: emptyWorld_def)
  moreover from d len
  have "length (fst (last (delivered (fst (handleGenerate demoEnv demoState emptyWorld))))) = 2"
    by simp
  ultimately show ?thesis
    using demo_batch_facts demoEnv_facts demo_readable(1) puts by simp
qed

end
